theory Spec2Isabelle
  imports Complex_Main "HOL-Library.AList"
begin

section \<open>Parts\<close>

text \<open>
  The part catalogue of \<^verbatim>\<open>parts/*.ts\<close>. A part object lives in an object store and is
  named by its reference (a natural number); two references are the same object iff they
  are equal, which is what \<^verbatim>\<open>===\<close> compares in the source. Grid indices, counters and
  labels are integers and positions on the board are reals. A rotation, and every number
  the animator computes a rotation from, is a \<open>number\<close>: a real or \<^verbatim>\<open>NaN\<close>.
  Sprites, textures and the renderer are display state and are left out.
\<close>

subsection \<open>Numbers\<close>

text \<open>
  A JavaScript number is \<^verbatim>\<open>NaN\<close> or a real (rounding and the infinities are not
  modelled). Arithmetic, \<^verbatim>\<open>Math.max\<close>, \<^verbatim>\<open>Math.min\<close> and \<^verbatim>\<open>Math.abs\<close> return \<^verbatim>\<open>NaN\<close> when an
  argument is \<^verbatim>\<open>NaN\<close>; a comparison with \<^verbatim>\<open>NaN\<close> is false, and so is \<^verbatim>\<open>NaN === NaN\<close>. Every
  division of the model has a positive divisor.
\<close>

datatype number = NaN | Num real

fun num_add :: "number \<Rightarrow> number \<Rightarrow> number" where
  "num_add (Num a) (Num b) = Num (a + b)"
| "num_add _ _ = NaN"

fun num_sub :: "number \<Rightarrow> number \<Rightarrow> number" where
  "num_sub (Num a) (Num b) = Num (a - b)"
| "num_sub _ _ = NaN"

fun num_mul :: "number \<Rightarrow> number \<Rightarrow> number" where
  "num_mul (Num a) (Num b) = Num (a * b)"
| "num_mul _ _ = NaN"

fun num_div :: "number \<Rightarrow> number \<Rightarrow> number" where
  "num_div (Num a) (Num b) = Num (a / b)"
| "num_div _ _ = NaN"

fun Math_abs :: "number \<Rightarrow> number" where
  "Math_abs (Num a) = Num \<bar>a\<bar>"
| "Math_abs NaN = NaN"

fun Math_max :: "number \<Rightarrow> number \<Rightarrow> number" where
  "Math_max (Num a) (Num b) = Num (max a b)"
| "Math_max _ _ = NaN"

fun Math_min :: "number \<Rightarrow> number \<Rightarrow> number" where
  "Math_min (Num a) (Num b) = Num (min a b)"
| "Math_min _ _ = NaN"

fun num_gt :: "number \<Rightarrow> number \<Rightarrow> bool" where
  "num_gt (Num a) (Num b) = (a > b)"
| "num_gt _ _ = False"

fun num_ge :: "number \<Rightarrow> number \<Rightarrow> bool" where
  "num_ge (Num a) (Num b) = (a \<ge> b)"
| "num_ge _ _ = False"

fun num_lt :: "number \<Rightarrow> number \<Rightarrow> bool" where
  "num_lt (Num a) (Num b) = (a < b)"
| "num_lt _ _ = False"

fun num_le :: "number \<Rightarrow> number \<Rightarrow> bool" where
  "num_le (Num a) (Num b) = (a \<le> b)"
| "num_le _ _ = False"

fun strictEq :: "number \<Rightarrow> number \<Rightarrow> bool" where
  "strictEq (Num a) (Num b) = (a = b)"
| "strictEq _ _ = False"

subsection \<open>The part record\<close>

datatype PartType =
  BLANK | PARTLOC | GEARLOC | RAMP | CROSSOVER | INTERCEPTOR
  | BIT | GEARBIT | GEAR | BALL | DROP | FENCE

datatype FenceVariant = PREVIEW | SIDE | SLOPE

text \<open>
  One record holds the fields of \<^verbatim>\<open>Part\<close> and of its subclasses: \<open>connected_set\<close> and
  \<open>connectionLabel\<close> are the fields \<^verbatim>\<open>connected\<close> and \<^verbatim>\<open>_connectionLabel\<close> of
  \<^verbatim>\<open>GearBase\<close>, \<open>variant\<close>, \<open>modulus\<close>, \<open>sequence\<close> those of \<^verbatim>\<open>Fence\<close>, and
  \<open>lastColumn\<close>, \<open>lastRow\<close> those of \<^verbatim>\<open>Ball\<close> (\<open>None\<close> is \<^verbatim>\<open>undefined\<close>).
  A \<^verbatim>\<open>connected\<close> set is built once by \<^verbatim>\<open>_connectGears\<close> and never changed afterwards, so
  it is stored by value, as the list of its members in insertion order (the order a
  JavaScript \<^verbatim>\<open>Set\<close> iterates in); \<open>None\<close> is \<^verbatim>\<open>null\<close>.
\<close>

record Part =
  ptype :: PartType
  isLocked :: bool
  changeCounter :: nat
  column :: real
  row :: real
  rotation :: number
  isFlipped :: bool
  connected_set :: "nat list option"
  connectionLabel :: int
  isOnPartLocation :: bool
  variant :: FenceVariant
  modulus :: int
  sequence :: int
  lastColumn :: "int option"
  lastRow :: "int option"

fun canRotate :: "PartType \<Rightarrow> bool" where
  "canRotate RAMP = True"
| "canRotate BIT = True"
| "canRotate GEARBIT = True"
| "canRotate GEAR = True"
| "canRotate _ = False"

fun canMirror :: "PartType \<Rightarrow> bool" where
  "canMirror PARTLOC = True"
| "canMirror GEARLOC = True"
| "canMirror CROSSOVER = True"
| "canMirror INTERCEPTOR = True"
| "canMirror BIT = True"
| "canMirror GEARBIT = True"
| "canMirror _ = False"

fun canFlip :: "PartType \<Rightarrow> bool" where
  "canFlip RAMP = True"
| "canFlip DROP = True"
| "canFlip FENCE = True"
| "canFlip _ = False"

text \<open>\<^verbatim>\<open>part instanceof GearBase\<close>: the classes \<^verbatim>\<open>Gearbit\<close> and \<^verbatim>\<open>Gear\<close>.\<close>

fun isGearBase :: "PartType \<Rightarrow> bool" where
  "isGearBase GEARBIT = True"
| "isGearBase GEAR = True"
| "isGearBase _ = False"

text \<open>The constructor of \<^verbatim>\<open>Part\<close> with the field initialisers of the subclasses.\<close>

definition newPart :: "PartType \<Rightarrow> Part" where
  "newPart t = \<lparr> ptype = t, isLocked = False, changeCounter = 0, column = 0, row = 0,
     rotation = Num 0, isFlipped = False, connected_set = None, connectionLabel = -1,
     isOnPartLocation = False, variant = PREVIEW, modulus = 1, sequence = 1,
     lastColumn = None, lastRow = None \<rparr>"

section \<open>The simulator state\<close>

text \<open>
  \<open>heap\<close> is the object store of parts and \<open>nextPart\<close> the next unused reference.
  \<open>subjects\<close> is \<^verbatim>\<open>Animator.current._subjects\<close>, a \<^verbatim>\<open>Map\<close> from subject to a \<^verbatim>\<open>Map\<close> from
  property name to animation record; a JavaScript \<^verbatim>\<open>Map\<close> is an association list in
  insertion order (\<open>AList.update\<close> replaces the value of a present key in place and appends
  a new one, \<open>AList.delete\<close> removes a key). The remaining fields are those of \<^verbatim>\<open>Board\<close>:
  \<open>grid\<close> is \<^verbatim>\<open>_grid\<close>, the rows of part references, and \<open>balls\<close> the \<^verbatim>\<open>Set\<close> of balls in
  insertion order.
\<close>

record Animation =
  anim_subject :: nat
  anim_property :: string
  anim_start :: number
  anim_end :: number
  anim_time :: number
  anim_delta :: number

record Sim =
  heap :: "nat \<Rightarrow> Part"
  nextPart :: nat
  subjects :: "(nat \<times> (string \<times> Animation) list) list"
  grid :: "nat list list"
  columnCount :: nat
  rowCount :: nat
  balls :: "nat list"
  boardChangeCounter :: nat

definition Map_has :: "('k \<times> 'v) list \<Rightarrow> 'k \<Rightarrow> bool" where
  "Map_has m k = (map_of m k \<noteq> None)"

definition updPart :: "nat \<Rightarrow> (Part \<Rightarrow> Part) \<Rightarrow> Sim \<Rightarrow> Sim" where
  "updPart p f w = w\<lparr> heap := (heap w)(p := f (heap w p)) \<rparr>"

subsection \<open>Setters of \<^verbatim>\<open>Part\<close>\<close>

text \<open>
  \<^verbatim>\<open>set rotation(r)\<close> of \<^verbatim>\<open>Part\<close>: nothing for a part that cannot rotate; otherwise the
  value is clamped with \<^verbatim>\<open>Math.min(Math.max(0.0, r), 1.0)\<close> and stored, and the change
  counter is bumped, unless the clamped value \<^verbatim>\<open>===\<close> the stored one. The clamp of \<^verbatim>\<open>NaN\<close> is
  \<^verbatim>\<open>NaN\<close>, which is not \<^verbatim>\<open>===\<close> to any stored value: \<^verbatim>\<open>NaN\<close> is stored, every time.
\<close>

definition clamp :: "number \<Rightarrow> number" where
  "clamp r = Math_min (Math_max (Num 0) r) (Num 1)"

definition Part_set_rotation :: "nat \<Rightarrow> number \<Rightarrow> Sim \<Rightarrow> Sim" where
  "Part_set_rotation this r0 w =
     (if \<not> canRotate (ptype (heap w this)) then w
      else let r = clamp r0 in
        if strictEq r (rotation (heap w this)) then w
        else updPart this (\<lambda>p. p\<lparr> rotation := r, changeCounter := changeCounter p + 1 \<rparr>) w)"

definition Part_set_isFlipped :: "nat \<Rightarrow> bool \<Rightarrow> Sim \<Rightarrow> Sim" where
  "Part_set_isFlipped this v w =
     (if \<not> canFlip (ptype (heap w this)) \<or> v = isFlipped (heap w this) then w
      else updPart this (\<lambda>p. p\<lparr> isFlipped := v, changeCounter := changeCounter p + 1 \<rparr>) w)"

definition Part_set_column :: "nat \<Rightarrow> real \<Rightarrow> Sim \<Rightarrow> Sim" where
  "Part_set_column this v w =
     (if v = column (heap w this) then w
      else updPart this (\<lambda>p. p\<lparr> column := v, changeCounter := changeCounter p + 1 \<rparr>) w)"

definition Part_set_row :: "nat \<Rightarrow> real \<Rightarrow> Sim \<Rightarrow> Sim" where
  "Part_set_row this v w =
     (if v = row (heap w this) then w
      else updPart this (\<lambda>p. p\<lparr> row := v, changeCounter := changeCounter p + 1 \<rparr>) w)"

subsection \<open>The animator: \<^verbatim>\<open>stopAnimating\<close>\<close>

definition Animator_stopAnimating :: "nat \<Rightarrow> string \<Rightarrow> Sim \<Rightarrow> Sim" where
  "Animator_stopAnimating subject property w =
     (case map_of (subjects w) subject of
        None \<Rightarrow> w
      | Some properties \<Rightarrow>
          let properties' = AList.delete property properties in
          if length properties' = 0
          then w\<lparr> subjects := AList.delete subject (subjects w) \<rparr>
          else w\<lparr> subjects := AList.update subject properties' (subjects w) \<rparr>)"

subsection \<open>The rotation setter of \<^verbatim>\<open>GearBase\<close>\<close>

text \<open>
  \<^verbatim>\<open>set rotation(v)\<close> as a part's class dispatches it. The static field
  \<^verbatim>\<open>GearBase._settingConnectedRotation\<close> is the argument \<open>setting\<close>: it is \<^verbatim>\<open>null\<close>
  (\<open>None\<close>) outside the setter, the outer call sets it to \<^verbatim>\<open>this\<close> for the calls it makes
  on the members of \<^verbatim>\<open>this.connected\<close> and resets it to \<^verbatim>\<open>null\<close> after the loop. At the
  second test of the source the field is therefore \<^verbatim>\<open>null\<close> when the loop has run and
  \<open>setting\<close> otherwise.
\<close>

function set_rotation :: "nat option \<Rightarrow> nat \<Rightarrow> number \<Rightarrow> Sim \<Rightarrow> Sim" where
  "set_rotation setting this v w =
     (if isGearBase (ptype (heap w this)) then
        let w1 =
          (if setting = None then
             (case connected_set (heap w this) of
                None \<Rightarrow> w
              | Some members \<Rightarrow>
                  fold (\<lambda>part w'. if part \<noteq> this then set_rotation (Some this) part v w' else w')
                    members w)
           else w);
            w2 =
          (if setting \<noteq> None \<and> setting \<noteq> Some this
           then Animator_stopAnimating this ''rotation'' w1 else w1)
        in Part_set_rotation this v w2
      else Part_set_rotation this v w)"
  by pat_completeness auto
termination
  by (relation "measure (\<lambda>(setting, this, v, w). if setting = None then 1 else 0)") auto

declare set_rotation.simps [simp del]

subsection \<open>The animator: \<^verbatim>\<open>animate\<close>, \<^verbatim>\<open>getEndValue\<close> and \<^verbatim>\<open>update\<close>\<close>

text \<open>
  \<^verbatim>\<open>subject[property]\<close>: the repository animates the property \<^verbatim>\<open>'rotation'\<close> of parts and
  no other, so this is the one property the model reads and writes; a write goes through
  the rotation setter, called from outside any setter (\<open>setting = None\<close>).
\<close>

definition getProperty :: "Sim \<Rightarrow> nat \<Rightarrow> string \<Rightarrow> number" where
  "getProperty w subject property =
     (if property = ''rotation'' then rotation (heap w subject) else Num 0)"

definition setProperty :: "nat \<Rightarrow> string \<Rightarrow> number \<Rightarrow> Sim \<Rightarrow> Sim" where
  "setProperty subject property v w =
     (if property = ''rotation'' then set_rotation None subject v w else w)"

definition Animator_animate ::
  "nat \<Rightarrow> string \<Rightarrow> number \<Rightarrow> number \<Rightarrow> number \<Rightarrow> Sim \<Rightarrow> Sim" where
  "Animator_animate subject property start end' time w =
     (if \<not> num_gt time (Num 0)
      then setProperty subject property end' (Animator_stopAnimating subject property w)
      else
        let properties = (case map_of (subjects w) subject of None \<Rightarrow> [] | Some ps \<Rightarrow> ps);
            delta = num_div (num_sub end' start) (num_mul time (Num 60));
            animation =
              (case map_of properties property of
                 Some a \<Rightarrow> a\<lparr> anim_start := start, anim_end := end', anim_time := time,
                              anim_delta := delta \<rparr>
               | None \<Rightarrow> \<lparr> anim_subject = subject, anim_property = property,
                            anim_start = start, anim_end = end', anim_time = time,
                            anim_delta = delta \<rparr>)
        in w\<lparr> subjects :=
               AList.update subject (AList.update property animation properties) (subjects w) \<rparr>)"

definition Animator_getEndValue :: "Sim \<Rightarrow> nat \<Rightarrow> string \<Rightarrow> number" where
  "Animator_getEndValue w subject property =
     (let current = getProperty w subject property in
      case map_of (subjects w) subject of
        None \<Rightarrow> current
      | Some properties \<Rightarrow>
          (case map_of properties property of
             None \<Rightarrow> current
           | Some a \<Rightarrow> anim_end a))"

text \<open>
  The body of the two loops of \<^verbatim>\<open>update\<close> for one animation record, and the loops. A
  JavaScript \<^verbatim>\<open>Map\<close> that loses entries while it is iterated skips them, and \<^verbatim>\<open>update\<close>
  adds none, so the loops run over the keys present at their start and look each one up
  again in the current state before its turn.
\<close>

definition updateAnimation :: "number \<Rightarrow> nat \<Rightarrow> string \<Rightarrow> Animation \<Rightarrow> Sim \<Rightarrow> Sim" where
  "updateAnimation correction subject property animation w =
     (let current = num_add (getProperty w subject property)
                      (num_mul (anim_delta animation) (Math_abs correction)) in
      if num_gt (anim_delta animation) (Num 0) then
        (if num_ge current (anim_end animation)
         then setProperty subject property (anim_end animation)
                (Animator_stopAnimating subject property w)
         else setProperty subject property current w)
      else if num_lt (anim_delta animation) (Num 0) then
        (if num_le current (anim_end animation)
         then setProperty subject property (anim_end animation)
                (Animator_stopAnimating subject property w)
         else setProperty subject property current w)
      else setProperty subject property (anim_end animation) w)"

definition Animator_update :: "number \<Rightarrow> Sim \<Rightarrow> Sim" where
  "Animator_update correction w =
     fold (\<lambda>subject w'.
        case map_of (subjects w') subject of
          None \<Rightarrow> w'
        | Some properties \<Rightarrow>
            fold (\<lambda>property w''.
               case map_of (subjects w'') subject of
                 None \<Rightarrow> w''
               | Some ps \<Rightarrow>
                   (case map_of ps property of
                      None \<Rightarrow> w''
                    | Some animation \<Rightarrow> updateAnimation correction subject property animation w''))
              (map fst properties) w')
       (map fst (subjects w)) w"

subsection \<open>\<^verbatim>\<open>bitValue\<close>, \<^verbatim>\<open>restingRotation\<close> and \<^verbatim>\<open>flip\<close>\<close>

definition bitValue :: "Sim \<Rightarrow> nat \<Rightarrow> bool" where
  "bitValue w this = num_ge (Animator_getEndValue w this ''rotation'') (Num (1/2))"

definition restingRotation :: "Sim \<Rightarrow> nat \<Rightarrow> number" where
  "restingRotation w this =
     (case ptype (heap w this) of
        RAMP \<Rightarrow> Num 0
      | BIT \<Rightarrow> (if bitValue w this then Num 1 else Num 0)
      | GEARBIT \<Rightarrow> (if bitValue w this then Num 1 else Num 0)
      | _ \<Rightarrow> rotation (heap w this))"


section \<open>Orientation of a part\<close>




fun inUnit :: "number \<Rightarrow> bool" where
  "inUnit (Num r) = (0 \<le> r \<and> r \<le> 1)"
| "inUnit NaN = False"

definition rotationsClamped :: "Sim \<Rightarrow> bool" where
  "rotationsClamped w = (\<forall>p. inUnit (rotation (heap w p)))"

definition endsDefined :: "Sim \<Rightarrow> bool" where
  "endsDefined w =
     (\<forall>s ps pr a. map_of (subjects w) s = Some ps \<longrightarrow> map_of ps pr = Some a
        \<longrightarrow> anim_end a \<noteq> NaN)"

definition clamp01 :: "real \<Rightarrow> real" where
  "clamp01 r = min (max 0 r) 1"

lemma fold_preserves:
  assumes "\<And>x s. x \<in> set xs \<Longrightarrow> P s \<Longrightarrow> P (f x s)" and "P s"
  shows "P (fold f xs s)"
  using assms by (induction xs arbitrary: s) auto

lemma clamp_Num [simp]: "clamp (Num x) = Num (clamp01 x)"
  by (simp add: clamp_def clamp01_def)

lemma clamp_NaN [simp]: "clamp NaN = NaN"
  by (simp add: clamp_def)


lemma strictEq_eq: "strictEq a b \<Longrightarrow> a = b"
  by (cases a; cases b) simp_all

lemma heap_stopAnimating [simp]: "heap (Animator_stopAnimating s p w) = heap w"
  by (simp add: Animator_stopAnimating_def Let_def split: option.splits)

lemma heap_Part_set_rotation:
  "heap (Part_set_rotation p v w) q =
     (if q = p \<and> canRotate (ptype (heap w p)) \<and> \<not> strictEq (clamp v) (rotation (heap w p))
      then (heap w p)\<lparr> rotation := clamp v, changeCounter := changeCounter (heap w p) + 1 \<rparr>
      else heap w q)"
  by (simp add: Part_set_rotation_def updPart_def Let_def)

lemma subjects_Part_set_rotation [simp]:
  "subjects (Part_set_rotation p v w) = subjects w"
  by (simp add: Part_set_rotation_def updPart_def Let_def)

lemma ptype_Part_set_rotation [simp]:
  "ptype (heap (Part_set_rotation p v w) q) = ptype (heap w q)"
  by (simp add: heap_Part_set_rotation)

lemma rotation_Part_set_rotation:
  "rotation (heap (Part_set_rotation p v w) q) =
     (if q = p \<and> canRotate (ptype (heap w p)) then clamp v else rotation (heap w q))"
  by (auto simp: heap_Part_set_rotation dest: strictEq_eq)

subsection \<open>Rotations stay in the unit interval when no \<^verbatim>\<open>NaN\<close> is passed\<close>




lemma rotationsClamped_subjects [simp]:
  "rotationsClamped (w\<lparr>subjects := s\<rparr>) = rotationsClamped w"
  by (simp add: rotationsClamped_def)









subsection \<open>End values stay defined\<close>

lemma endsDefined_heap [simp]: "endsDefined (w\<lparr> heap := h \<rparr>) = endsDefined w"
  by (simp add: endsDefined_def)

lemma endsDefined_updPart [simp]: "endsDefined (updPart p f w) = endsDefined w"
  by (simp add: endsDefined_def updPart_def)

lemma endsDefined_Part_set_rotation [simp]:
  "endsDefined (Part_set_rotation p v w) = endsDefined w"
  by (simp add: endsDefined_def)

lemma endsDefined_Part_set_isFlipped [simp]:
  "endsDefined (Part_set_isFlipped p v w) = endsDefined w"
  by (simp add: Part_set_isFlipped_def)

lemma endsDefined_Part_set_column [simp]:
  "endsDefined (Part_set_column p v w) = endsDefined w"
  by (simp add: Part_set_column_def)

lemma endsDefined_Part_set_row [simp]:
  "endsDefined (Part_set_row p v w) = endsDefined w"
  by (simp add: Part_set_row_def)










subsection \<open>The setter of a gear\<close>

definition hasAnimation :: "Sim \<Rightarrow> nat \<Rightarrow> string \<Rightarrow> bool" where
  "hasAnimation w subject property =
     (case map_of (subjects w) subject of
        None \<Rightarrow> False
      | Some properties \<Rightarrow> Map_has properties property)"

lemma isGearBase_canRotate: "isGearBase t \<Longrightarrow> canRotate t"
  by (cases t) simp_all

lemma set_rotation_nested:
  "set_rotation (Some q) m v w =
     (if isGearBase (ptype (heap w m)) \<and> q \<noteq> m
      then Part_set_rotation m v (Animator_stopAnimating m ''rotation'' w)
      else Part_set_rotation m v w)"
  by (subst set_rotation.simps) (simp add: Let_def)

lemma set_rotation_not_GearBase:
  "\<not> isGearBase (ptype (heap w p)) \<Longrightarrow> set_rotation setting p v w = Part_set_rotation p v w"
  by (subst set_rotation.simps) simp


lemma ptype_set_rotation [simp]:
  "ptype (heap (set_rotation setting this v w) q) = ptype (heap w q)"
proof (induction setting this v w arbitrary: q rule: set_rotation.induct)
  case (1 setting this v w)
  let ?step = "\<lambda>part w'. if part \<noteq> this then set_rotation (Some this) part v w' else w'"
  have loop: "ptype (heap (fold ?step members w) q) = ptype (heap w q)"
    if "isGearBase (ptype (heap w this))" "setting = None"
      "connected_set (heap w this) = Some members" for members q
    by (rule fold_preserves [where P = "\<lambda>s. ptype (heap s q) = ptype (heap w q)"])
      (auto simp: "1.IH" that)
  show ?case
    by (subst set_rotation.simps) (simp add: Let_def loop split: option.splits)
qed

lemma rotation_set_rotation_self:
  assumes "canRotate (ptype (heap w p))"
  shows "rotation (heap (set_rotation setting p v w) p) = clamp v"
  by (subst set_rotation.simps) (simp add: Let_def rotation_Part_set_rotation assms
      fold_preserves [where P = "\<lambda>s. canRotate (ptype (heap s p))"] split: option.splits)

lemma delete_Nil_map_of:
  "AList.delete k al = [] \<Longrightarrow> k' \<noteq> k \<Longrightarrow> map_of al k' = None"
  using AList.map_of_delete [of k' k al] by simp

lemma hasAnimation_stopAnimating:
  "hasAnimation (Animator_stopAnimating s pr w) s' pr' =
     (hasAnimation w s' pr' \<and> \<not> (s' = s \<and> pr' = pr))"
  by (auto simp: hasAnimation_def Animator_stopAnimating_def Let_def Map_has_def
      AList.delete_conv' AList.update_conv' delete_Nil_map_of split: option.splits)

lemma hasAnimation_Part_set_rotation [simp]:
  "hasAnimation (Part_set_rotation p v w) s pr = hasAnimation w s pr"
  by (simp add: hasAnimation_def)

lemma gear_loop_preserves:
  assumes "rotation (heap w x) = clamp v \<and> \<not> hasAnimation w x ''rotation''"
  shows "rotation (heap (fold (\<lambda>part w'. if part \<noteq> p then set_rotation (Some p) part v w' else w') ms w) x)
           = clamp v
         \<and> \<not> hasAnimation (fold (\<lambda>part w'. if part \<noteq> p then set_rotation (Some p) part v w' else w') ms w)
               x ''rotation''"
  by (rule fold_preserves
      [where P = "\<lambda>s. rotation (heap s x) = clamp v \<and> \<not> hasAnimation s x ''rotation''"])
    (auto simp: assms set_rotation_nested rotation_Part_set_rotation hasAnimation_stopAnimating)

lemma gear_loop_members:
  assumes "\<forall>m \<in> set ms. isGearBase (ptype (heap w m))" and "m \<in> set ms" and "m \<noteq> p"
  shows "rotation (heap (fold (\<lambda>part w'. if part \<noteq> p then set_rotation (Some p) part v w' else w') ms w) m)
           = clamp v
         \<and> \<not> hasAnimation (fold (\<lambda>part w'. if part \<noteq> p then set_rotation (Some p) part v w' else w') ms w)
               m ''rotation''"
  using assms
proof (induction ms arbitrary: w)
  case Nil
  then show ?case by simp
next
  case (Cons x xs)
  let ?w1 = "if x \<noteq> p then set_rotation (Some p) x v w else w"
  have types: "\<forall>m \<in> set xs. isGearBase (ptype (heap ?w1 m))"
    using Cons.prems(1) by simp
  show ?case
  proof (cases "m = x")
    case True
    have "isGearBase (ptype (heap w m))" using Cons.prems(1) True by simp
    then have "rotation (heap ?w1 m) = clamp v \<and> \<not> hasAnimation ?w1 m ''rotation''"
      using True Cons.prems(3)
      by (simp add: set_rotation_nested rotation_Part_set_rotation hasAnimation_stopAnimating
          isGearBase_canRotate)
    from gear_loop_preserves [OF this] show ?thesis by simp
  next
    case False
    then have "m \<in> set xs" using Cons.prems(2) by simp
    from Cons.IH [OF types this Cons.prems(3)] show ?thesis by simp
  qed
qed

lemma gear_rotation_members:
  assumes "isGearBase (ptype (heap w p))"
    and "connected_set (heap w p) = Some S"
    and "\<forall>m \<in> set S. isGearBase (ptype (heap w m))"
  shows "(\<forall>m \<in> set S. rotation (heap (set_rotation None p v w) m) = clamp v)
    \<and> rotation (heap (set_rotation None p v w) p) = clamp v
    \<and> (\<forall>m \<in> set S. m \<noteq> p \<longrightarrow> \<not> hasAnimation (set_rotation None p v w) m ''rotation'')"
proof -
  let ?loop = "fold (\<lambda>part w'. if part \<noteq> p then set_rotation (Some p) part v w' else w') S w"
  have unfold: "set_rotation None p v w = Part_set_rotation p v ?loop"
    by (subst set_rotation.simps) (simp add: assms Let_def)
  have self: "rotation (heap (set_rotation None p v w) p) = clamp v"
    by (rule rotation_set_rotation_self) (simp add: assms isGearBase_canRotate)
  have others: "rotation (heap (set_rotation None p v w) m) = clamp v
      \<and> \<not> hasAnimation (set_rotation None p v w) m ''rotation''"
    if "m \<in> set S" "m \<noteq> p" for m
    using gear_loop_members [OF assms(3) that, of v] that(2)
    by (simp add: unfold rotation_Part_set_rotation)
  show ?thesis
    using self others by auto
qed

definition bitSim :: Sim where
  "bitSim = \<lparr> heap = (\<lambda>r. if r = 0 then newPart BIT else newPart CROSSOVER), nextPart = 2,
      subjects = [], grid = [], columnCount = 0, rowCount = 0, balls = [],
      boardChangeCounter = 0 \<rparr>"




definition gearPair :: Sim where
  "gearPair = \<lparr> heap = (\<lambda>r. (newPart GEARBIT)\<lparr> connected_set := Some [0, 1] \<rparr>), nextPart = 2,
      subjects = [(1, [(''rotation'', \<lparr> anim_subject = 1, anim_property = ''rotation'',
         anim_start = Num 0, anim_end = Num 1, anim_time = Num 1, anim_delta = Num (1 / 60) \<rparr>)])],
      grid = [[0, 1]], columnCount = 2, rowCount = 1, balls = [], boardChangeCounter = 0 \<rparr>"

text \<open>
  Claim C10 says that the assignment \<^verbatim>\<open>p.rotation = v\<close> leaves each member of the connected
  set with \<open>v\<close> clamped to \<open>[0, 1]\<close>. In \<open>gearPair\<close> two gearbits are connected, both at
  rotation \<open>0\<close>; the assignment of \<^verbatim>\<open>NaN\<close> to the first leaves \<^verbatim>\<open>NaN\<close> in both.
\<close>

theorem C10_counterexample:
  "isGearBase (ptype (heap gearPair 0))
   \<and> connected_set (heap gearPair 0) = Some [0, 1]
   \<and> rotation (heap gearPair 0) = Num 0 \<and> rotation (heap gearPair 1) = Num 0
   \<and> rotation (heap (set_rotation None 0 NaN gearPair) 0) = NaN
   \<and> rotation (heap (set_rotation None 0 NaN gearPair) 1) = NaN"
proof -
  have a: "isGearBase (ptype (heap gearPair 0))"
    and b: "connected_set (heap gearPair 0) = Some [0, 1]"
    and c: "\<forall>m \<in> set [0, 1]. isGearBase (ptype (heap gearPair m))"
    and d: "rotation (heap gearPair 0) = Num 0" "rotation (heap gearPair 1) = Num 0"
    by (simp_all add: gearPair_def newPart_def)
  from gear_rotation_members [OF a b c, of NaN]
  show ?thesis using a b d by simp
qed

text \<open>
  Claim C10, for a value other than \<^verbatim>\<open>NaN\<close>. Let \<open>p\<close> be a gear or gearbit whose
  \<^verbatim>\<open>connected\<close> set \<open>S\<close> is not null (its members are gears and gearbits, as
  \<^verbatim>\<open>_connectGears\<close> builds it). The assignment \<^verbatim>\<open>p.rotation = x\<close> of a real \<open>x\<close>, made outside any
  setter, leaves every member of \<open>S\<close> and \<open>p\<close> itself with the rotation \<open>x\<close> clamped into
  \<open>[0, 1]\<close> and no other member of \<open>S\<close> with a rotation animation. The call a member
  receives from \<open>p\<close>, whatever the value, is the plain setter after \<^verbatim>\<open>stopAnimating\<close>: it does
  not propagate again, so the recursion has depth two; that \<open>set_rotation\<close> is a total
  function was shown when it was defined.
\<close>

theorem C10_gear_rotation_reaches_connected_set:
  assumes "isGearBase (ptype (heap w p))"
    and "connected_set (heap w p) = Some S"
    and "\<forall>m \<in> set S. isGearBase (ptype (heap w m))"
  shows "(\<forall>m \<in> set S. rotation (heap (set_rotation None p (Num x) w) m) = Num (clamp01 x))
    \<and> rotation (heap (set_rotation None p (Num x) w) p) = Num (clamp01 x)
    \<and> 0 \<le> clamp01 x \<and> clamp01 x \<le> 1
    \<and> (\<forall>m \<in> set S. m \<noteq> p \<longrightarrow> \<not> hasAnimation (set_rotation None p (Num x) w) m ''rotation'')
    \<and> (\<forall>m v w'. set_rotation (Some p) m v w' =
          (if isGearBase (ptype (heap w' m)) \<and> p \<noteq> m
           then Part_set_rotation m v (Animator_stopAnimating m ''rotation'' w')
           else Part_set_rotation m v w'))"
  using gear_rotation_members [OF assms, of "Num x"]
  by (simp add: set_rotation_nested clamp01_def)

theorem C10_witness:
  "isGearBase (ptype (heap gearPair 0))
   \<and> connected_set (heap gearPair 0) = Some [0, 1]
   \<and> hasAnimation gearPair 1 ''rotation''
   \<and> rotation (heap (set_rotation None 0 (Num (3/4)) gearPair) 0) = Num (3/4)
   \<and> rotation (heap (set_rotation None 0 (Num (3/4)) gearPair) 1) = Num (3/4)
   \<and> \<not> hasAnimation (set_rotation None 0 (Num (3/4)) gearPair) 1 ''rotation''"
proof -
  have a: "isGearBase (ptype (heap gearPair 0))"
    and b: "connected_set (heap gearPair 0) = Some [0, 1]"
    and c: "\<forall>m \<in> set [0, 1]. isGearBase (ptype (heap gearPair m))"
    and d: "hasAnimation gearPair 1 ''rotation''"
    by (simp_all add: gearPair_def newPart_def hasAnimation_def Map_has_def)
  from C10_gear_rotation_reaches_connected_set [OF a b c, of "3/4"]
  show ?thesis using a b d by (simp add: clamp01_def)
qed

section \<open>The board: lookup and the placement rule\<close>

text \<open>
  \<^verbatim>\<open>getPart\<close> and \<^verbatim>\<open>canPlacePart\<close>. Their callers pass grid coordinates rounded with
  \<^verbatim>\<open>Math.round\<close>, so the coordinates are integers. Inside the bounds \<^verbatim>\<open>_grid[row][column]\<close>
  is a part: the grid has \<^verbatim>\<open>_rowCount\<close> rows of \<^verbatim>\<open>_columnCount\<close> parts (see \<open>gridOK\<close> below).
\<close>

definition getPart :: "Sim \<Rightarrow> int \<Rightarrow> int \<Rightarrow> nat option" where
  "getPart b column' row' =
     (if column' < 0 \<or> column' \<ge> int (columnCount b) \<or> row' < 0 \<or> row' \<ge> int (rowCount b)
      then None
      else Some (grid b ! nat row' ! nat column'))"

definition canPlacePart :: "Sim \<Rightarrow> PartType \<Rightarrow> int \<Rightarrow> int \<Rightarrow> bool" where
  "canPlacePart b type column' row' =
     (if type = BALL then
        row' \<ge> 0 \<and> column' \<ge> 0 \<and> row' < int (rowCount b) \<and> column' < int (columnCount b)
      else if column' < 0 \<or> column' \<ge> int (columnCount b) \<or> row' < 0 \<or> row' \<ge> int (rowCount b)
      then False
      else
        (case getPart b column' row' of
           Some oldPart \<Rightarrow>
             if isLocked (heap b oldPart) then False
             else if type = PARTLOC \<or> type = GEARLOC \<or> type = GEAR \<or> type = FENCE then True
             else (row' + column') mod 2 = 0
         | None \<Rightarrow>
             if type = PARTLOC \<or> type = GEARLOC \<or> type = GEAR \<or> type = FENCE then True
             else (row' + column') mod 2 = 0))"

text \<open>The two conditions the rule speaks of: a position inside the grid, and a locked part there.\<close>

definition inBounds :: "Sim \<Rightarrow> int \<Rightarrow> int \<Rightarrow> bool" where
  "inBounds b column' row' =
     (0 \<le> column' \<and> column' < int (columnCount b) \<and> 0 \<le> row' \<and> row' < int (rowCount b))"

definition lockedAt :: "Sim \<Rightarrow> int \<Rightarrow> int \<Rightarrow> bool" where
  "lockedAt b column' row' =
     (case getPart b column' row' of None \<Rightarrow> False | Some p \<Rightarrow> isLocked (heap b p))"

text \<open>
  Claim C2. The clauses of the placement rule, in the order the claim lists them and the
  code tests them: a ball is allowed exactly inside the grid bounds; a position outside
  the bounds is rejected for every type; for every other type than a ball a position whose
  part is locked is rejected; where the part is not locked, the types \<^verbatim>\<open>PartLocation\<close>,
  \<^verbatim>\<open>GearLocation\<close>, \<^verbatim>\<open>Gear\<close> and \<^verbatim>\<open>Fence\<close> are allowed anywhere in bounds, and each remaining
  type exactly where \<open>(row + column) mod 2 = 0\<close>. \<open>canPlacePart\<close> is a function of the state
  and its arguments that returns no state: the source assigns nothing, so the result
  cannot depend on earlier calls and the board is not changed.
\<close>

theorem C2_canPlacePart_rule:
  "(type = BALL \<longrightarrow> canPlacePart b type c r = inBounds b c r)
   \<and> (\<not> inBounds b c r \<longrightarrow> \<not> canPlacePart b type c r)
   \<and> (type \<noteq> BALL \<and> lockedAt b c r \<longrightarrow> \<not> canPlacePart b type c r)
   \<and> (type \<in> {PARTLOC, GEARLOC, GEAR, FENCE} \<and> inBounds b c r \<and> \<not> lockedAt b c r
        \<longrightarrow> canPlacePart b type c r)
   \<and> (type \<notin> {BALL, PARTLOC, GEARLOC, GEAR, FENCE} \<and> inBounds b c r \<and> \<not> lockedAt b c r
        \<longrightarrow> canPlacePart b type c r = ((r + c) mod 2 = 0))"
  by (auto simp: canPlacePart_def inBounds_def lockedAt_def getPart_def split: option.splits)

definition lockedBoard :: Sim where
  "lockedBoard = \<lparr> heap = (\<lambda>r. if r = 0 then (newPart BLANK)\<lparr> isLocked := True \<rparr>
                                else newPart GEARLOC),
      nextPart = 2, subjects = [], grid = [[0, 1]], columnCount = 2, rowCount = 1, balls = [],
      boardChangeCounter = 0 \<rparr>"

theorem C2_witness:
  "canPlacePart lockedBoard BALL 0 0 \<and> inBounds lockedBoard 0 0
   \<and> \<not> inBounds lockedBoard 2 0 \<and> \<not> canPlacePart lockedBoard FENCE 2 0
   \<and> lockedAt lockedBoard 0 0 \<and> \<not> canPlacePart lockedBoard GEAR 0 0
   \<and> \<not> lockedAt lockedBoard 1 0 \<and> canPlacePart lockedBoard GEAR 1 0
   \<and> \<not> canPlacePart lockedBoard RAMP 1 0"
proof -
  have facts: "inBounds lockedBoard 0 0" "\<not> inBounds lockedBoard 2 0" "lockedAt lockedBoard 0 0"
    "\<not> lockedAt lockedBoard 1 0" "inBounds lockedBoard 1 0"
    by (simp_all add: lockedBoard_def inBounds_def lockedAt_def getPart_def newPart_def)
  from C2_canPlacePart_rule [of BALL lockedBoard 0 0] C2_canPlacePart_rule [of FENCE lockedBoard 2 0]
    C2_canPlacePart_rule [of GEAR lockedBoard 0 0] C2_canPlacePart_rule [of GEAR lockedBoard 1 0]
    C2_canPlacePart_rule [of RAMP lockedBoard 1 0]
  show ?thesis using facts by simp
qed

section \<open>An animation that is never removed\<close>

text \<open>
  The state \<open>halfway\<close>: a bit at rotation \<open>1/2\<close> on which
  \<^verbatim>\<open>animate(bit, 'rotation', 0.5, 0.5, 1.0)\<close> has registered an animation; its duration is
  positive and its \<^verbatim>\<open>delta\<close> is \<open>(0.5 - 0.5) / (1.0 * 60) = 0\<close>.
\<close>

definition halfway :: Sim where
  "halfway = Animator_animate 0 ''rotation'' (Num (1/2)) (Num (1/2)) (Num 1)
               (Part_set_rotation 0 (Num (1/2)) bitSim)"

lemma halfway_eq:
  "halfway = bitSim\<lparr> heap := (heap bitSim)(0 := (newPart BIT)\<lparr> rotation := Num (1/2),
                                                   changeCounter := 1 \<rparr>),
      subjects := [(0, [(''rotation'', \<lparr> anim_subject = 0, anim_property = ''rotation'',
         anim_start = Num (1/2), anim_end = Num (1/2), anim_time = Num 1,
         anim_delta = Num 0 \<rparr>)])] \<rparr>"
  by (simp add: halfway_def Animator_animate_def Part_set_rotation_def bitSim_def updPart_def
      newPart_def Let_def clamp01_def)

lemma halfway_update: "Animator_update c halfway = halfway"
  by (simp add: halfway_eq Animator_update_def updateAnimation_def getProperty_def setProperty_def
      set_rotation_not_GearBase Part_set_rotation_def bitSim_def newPart_def Let_def clamp01_def)

text \<open>
  Claim C6 says that every registered animation is removed once its property reaches
  \<^verbatim>\<open>end\<close>. In \<open>halfway\<close> the property is at \<^verbatim>\<open>end\<close>, and the record is still registered after
  any number of calls of \<^verbatim>\<open>update\<close> with any correction: the branch of \<^verbatim>\<open>update\<close> for
  \<^verbatim>\<open>delta == 0\<close> stores \<^verbatim>\<open>end\<close> and does not call \<^verbatim>\<open>stopAnimating\<close>, which the two other
  branches do.
\<close>

theorem C6_zero_delta_animation_stays_registered:
  "rotation (heap halfway 0) = Num (1/2)
   \<and> Animator_getEndValue halfway 0 ''rotation'' = Num (1/2)
   \<and> hasAnimation halfway 0 ''rotation''
   \<and> (\<forall>n c. hasAnimation ((Animator_update c ^^ n) halfway) 0 ''rotation'')"
proof -
  have "(Animator_update c ^^ n) halfway = halfway" for n c
    by (induction n) (simp_all add: halfway_update)
  moreover have "hasAnimation halfway 0 ''rotation''" "rotation (heap halfway 0) = Num (1/2)"
    "Animator_getEndValue halfway 0 ''rotation'' = Num (1/2)"
    by (simp_all add: halfway_eq hasAnimation_def Map_has_def Animator_getEndValue_def
        getProperty_def)
  ultimately show ?thesis by simp
qed

section \<open>The physical ball router\<close>

text \<open>
  \<^verbatim>\<open>board/physics.ts\<close> and \<^verbatim>\<open>parts/partbody.ts\<close>. A function that can throw returns the
  error beside the state reached when it was thrown, since the assignments made before a
  \<^verbatim>\<open>throw\<close> stay made: \<open>TypeError\<close> is the engine's error on iterating \<^verbatim>\<open>null\<close>,
  \<open>PartTypeMismatch\<close> the string thrown by the \<^verbatim>\<open>part\<close> setter of \<^verbatim>\<open>PartBody\<close>, and the last
  two are the strings thrown by \<^verbatim>\<open>DisjointSet\<close>.
\<close>

datatype Error = TypeError | PartTypeMismatch | IndexOutOfBounds | NegativeSize

text \<open>
  A \<^verbatim>\<open>PartBody\<close> object, by reference into the store \<open>bodies\<close>. \<open>pb_body\<close> is the field
  \<^verbatim>\<open>_body\<close>: not yet built (\<^verbatim>\<open>undefined\<close>), \<^verbatim>\<open>null\<close> for a part type without vertex sets, or a
  body of the physics engine. \<open>pb_partChangeCounter\<close> is \<open>None\<close> for \<^verbatim>\<open>NaN\<close>. What the engine
  keeps inside a body or a composite (velocities, angle, constraints, static flag) is the
  engine's state and is not modelled; \<open>world\<close> lists the composites that were added to the
  engine's world and not removed, each named by its \<^verbatim>\<open>PartBody\<close>.
\<close>

datatype BodySlot = Unbuilt | NoBody | Body

record PartBody =
  pb_type :: PartType
  pb_part :: "nat option"
  pb_body :: BodySlot
  pb_partChangeCounter :: "nat option"
  pb_bodyFlipped :: bool
  pb_compositePosition :: "real \<times> real"

text \<open>
  The router with its factory: \<open>parts_map\<close> is \<^verbatim>\<open>_parts\<close>, \<open>ballNeighbors\<close> is
  \<^verbatim>\<open>_ballNeighbors\<close>, and \<open>reuse\<close>, \<open>unused\<close>, \<open>used\<close> are the fields of \<^verbatim>\<open>PartBodyFactory\<close>.
\<close>

record Router =
  parts_map :: "(nat \<times> nat) list"
  ballNeighbors :: "(nat \<times> nat list) list"
  world :: "nat list"
  bodies :: "nat \<Rightarrow> PartBody"
  nextBody :: nat
  reuse :: bool
  unused :: "(PartType \<times> nat list) list"
  used :: "nat list"

text \<open>A JavaScript \<^verbatim>\<open>Set\<close> as the list of its elements in insertion order.\<close>

definition Set_add :: "'a \<Rightarrow> 'a list \<Rightarrow> 'a list" where
  "Set_add x xs = (if x \<in> set xs then xs else xs @ [x])"

definition Set_delete :: "'a \<Rightarrow> 'a list \<Rightarrow> 'a list" where
  "Set_delete x xs = removeAll x xs"

text \<open>Whether \<^verbatim>\<open>getVertexSets\<close> of \<^verbatim>\<open>parts/partvertices\<close> returns vertex sets for the class.\<close>

fun hasVertexSets :: "PartType \<Rightarrow> bool" where
  "hasVertexSets BIT = True"
| "hasVertexSets CROSSOVER = True"
| "hasVertexSets GEARLOC = True"
| "hasVertexSets GEARBIT = True"
| "hasVertexSets INTERCEPTOR = True"
| "hasVertexSets PARTLOC = True"
| "hasVertexSets RAMP = True"
| "hasVertexSets _ = False"

definition SPACING :: real where
  "SPACING = 68"

definition updBody :: "nat \<Rightarrow> (PartBody \<Rightarrow> PartBody) \<Rightarrow> Router \<Rightarrow> Router" where
  "updBody i f rt = rt\<lparr> bodies := (bodies rt)(i := f (bodies rt i)) \<rparr>"

definition PartBody_updateBodyFromPart :: "Sim \<Rightarrow> nat \<Rightarrow> Router \<Rightarrow> Router" where
  "PartBody_updateBodyFromPart w this rt =
     (case pb_part (bodies rt this) of
        None \<Rightarrow> rt
      | Some part \<Rightarrow>
          if pb_body (bodies rt this) \<noteq> Body
             \<or> Some (changeCounter (heap w part)) = pb_partChangeCounter (bodies rt this)
          then rt
          else updBody this (\<lambda>b. b\<lparr>
                 pb_bodyFlipped := isFlipped (heap w part),
                 pb_compositePosition :=
                   (column (heap w part) * SPACING, row (heap w part) * SPACING),
                 pb_partChangeCounter := Some (changeCounter (heap w part)) \<rparr>) rt)"

definition PartBody_initBodyFromPart :: "Sim \<Rightarrow> nat \<Rightarrow> Router \<Rightarrow> Router" where
  "PartBody_initBodyFromPart w this rt =
     (if pb_body (bodies rt this) \<noteq> Body \<or> pb_part (bodies rt this) = None then rt
      else PartBody_updateBodyFromPart w this rt)"

definition PartBody_resetBody :: "nat \<Rightarrow> Router \<Rightarrow> Router" where
  "PartBody_resetBody this rt =
     (if pb_body (bodies rt this) \<noteq> Body then rt
      else updBody this (\<lambda>b. b\<lparr> pb_compositePosition := (0, 0) \<rparr>) rt)"

definition PartBody_set_part :: "Sim \<Rightarrow> nat \<Rightarrow> nat option \<Rightarrow> Router \<Rightarrow> Error option \<times> Router" where
  "PartBody_set_part w this part rt =
     (if part = pb_part (bodies rt this) then (None, rt)
      else case part of
        Some p \<Rightarrow>
          if ptype (heap w p) \<noteq> pb_type (bodies rt this) then (Some PartTypeMismatch, rt)
          else (None, PartBody_initBodyFromPart w this
                        (updBody this (\<lambda>b. b\<lparr> pb_part := Some p \<rparr>) rt))
      | None \<Rightarrow>
          (None, updBody this (\<lambda>b. b\<lparr> pb_part := None, pb_partChangeCounter := None \<rparr>)
                   (PartBody_resetBody this rt)))"

definition PartBody_get_body :: "Sim \<Rightarrow> nat \<Rightarrow> Router \<Rightarrow> BodySlot \<times> Router" where
  "PartBody_get_body w this rt =
     (if pb_body (bodies rt this) = Unbuilt then
        let slot = (if pb_type (bodies rt this) = BALL \<or> hasVertexSets (pb_type (bodies rt this))
                    then Body else NoBody);
            rt' = PartBody_initBodyFromPart w this (updBody this (\<lambda>b. b\<lparr> pb_body := slot \<rparr>) rt)
        in (slot, rt')
      else (pb_body (bodies rt this), rt))"

definition PartBody_addToWorld :: "Sim \<Rightarrow> nat \<Rightarrow> Router \<Rightarrow> Router" where
  "PartBody_addToWorld w this rt =
     (case PartBody_get_body w this rt of
        (Body, rt') \<Rightarrow> rt'\<lparr> world := world rt' @ [this] \<rparr>
      | (_, rt') \<Rightarrow> rt')"

definition PartBody_removeFromWorld :: "nat \<Rightarrow> Router \<Rightarrow> Router" where
  "PartBody_removeFromWorld this rt = rt\<lparr> world := remove1 this (world rt) \<rparr>"

definition new_PartBody :: "Sim \<Rightarrow> nat \<Rightarrow> Router \<Rightarrow> nat \<times> Router" where
  "new_PartBody w part rt =
     (nextBody rt,
      rt\<lparr> bodies := (bodies rt)(nextBody rt :=
              \<lparr> pb_type = ptype (heap w part), pb_part = Some part, pb_body = Unbuilt,
                pb_partChangeCounter = None, pb_bodyFlipped = False,
                pb_compositePosition = (0, 0) \<rparr>),
          nextBody := nextBody rt + 1 \<rparr>)"

definition PartBodyFactory_make :: "Sim \<Rightarrow> nat \<Rightarrow> Router \<Rightarrow> (Error + nat) \<times> Router" where
  "PartBodyFactory_make w part rt =
     (let t = ptype (heap w part);
          rt1 = (if \<not> Map_has (unused rt) t then rt\<lparr> unused := AList.update t [] (unused rt) \<rparr>
                 else rt);
          available = (case map_of (unused rt1) t of None \<Rightarrow> [] | Some l \<Rightarrow> l);
          (instance, rt2) =
            (if length available > 0 \<and> reuse rt1
             then (last available,
                   rt1\<lparr> unused := AList.update t (butlast available) (unused rt1) \<rparr>)
             else new_PartBody w part rt1);
          rt3 = rt2\<lparr> used := Set_add instance (used rt2) \<rparr>
      in case PartBody_set_part w instance (Some part) rt3 of
           (Some e, rt4) \<Rightarrow> (Inl e, rt4)
         | (None, rt4) \<Rightarrow> (Inr instance, rt4))"

definition PartBodyFactory_release :: "Sim \<Rightarrow> nat \<Rightarrow> Router \<Rightarrow> Router" where
  "PartBodyFactory_release w instance rt =
     (if instance \<notin> set (used rt) then rt
      else
        let rt1 = snd (PartBody_set_part w instance None rt);
            rt2 = rt1\<lparr> used := Set_delete instance (used rt1) \<rparr>;
            t = pb_type (bodies rt2 instance);
            rt3 = (if \<not> Map_has (unused rt2) t then rt2\<lparr> unused := AList.update t [] (unused rt2) \<rparr>
                   else rt2)
        in if reuse rt3
           then rt3\<lparr> unused := AList.update t
                   ((case map_of (unused rt3) t of None \<Rightarrow> [] | Some l \<Rightarrow> l) @ [instance])
                   (unused rt3) \<rparr>
           else rt3)"

definition Router_addPart :: "nat \<Rightarrow> Sim \<Rightarrow> Router \<Rightarrow> Error option \<times> Router" where
  "Router_addPart part w rt =
     (if Map_has (parts_map rt) part then (None, rt)
      else case PartBodyFactory_make w part rt of
        (Inl e, rt1) \<Rightarrow> (Some e, rt1)
      | (Inr partBody, rt1) \<Rightarrow>
          (None, PartBody_addToWorld w partBody
                   (rt1\<lparr> parts_map := AList.update part partBody (parts_map rt1) \<rparr>)))"

definition restoreRestingRotation :: "nat \<Rightarrow> Sim \<Rightarrow> Router \<Rightarrow> Error option \<times> Sim" where
  "restoreRestingRotation part w rt =
     (if strictEq (rotation (heap w part)) (restingRotation w part) then (None, w)
      else if ptype (heap w part) = GEARBIT then
        (case connected_set (heap w part) of
           None \<Rightarrow> (Some TypeError, w)
         | Some gears \<Rightarrow>
             if list_ex (\<lambda>gear. ptype (heap w gear) = GEARBIT \<and> Map_has (parts_map rt) gear) gears
             then (None, w)
             else (None, Animator_animate part ''rotation'' (rotation (heap w part))
                           (restingRotation w part) (Num (1/10)) w))
      else (None, Animator_animate part ''rotation'' (rotation (heap w part))
                    (restingRotation w part) (Num (1/10)) w))"

definition Router_removePart :: "nat \<Rightarrow> Sim \<times> Router \<Rightarrow> Error option \<times> Sim \<times> Router" where
  "Router_removePart part s =
     (case s of (w, rt) \<Rightarrow>
        (case map_of (parts_map rt) part of
           None \<Rightarrow> (None, w, rt)
         | Some partBody \<Rightarrow>
             let rt1 = PartBody_removeFromWorld partBody rt;
                 rt2 = PartBodyFactory_release w partBody rt1;
                 rt3 = rt2\<lparr> parts_map := AList.delete part (parts_map rt2) \<rparr>
             in case restoreRestingRotation part w rt3 of (e, w') \<Rightarrow> (e, w', rt3)))"


subsection \<open>Adding and removing twice\<close>

text \<open>
  The factory files a released instance under its own type, so every pooled instance has
  the type of its pool; \<^verbatim>\<open>make\<close> then never meets the type check of the \<^verbatim>\<open>part\<close> setter.
\<close>

definition poolsMatchTypes :: "Router \<Rightarrow> bool" where
  "poolsMatchTypes rt =
     (\<forall>t l. map_of (unused rt) t = Some l \<longrightarrow> (\<forall>i \<in> set l. pb_type (bodies rt i) = t))"

lemma parts_map_updBody [simp]: "parts_map (updBody i f rt) = parts_map rt"
  by (simp add: updBody_def)

lemma parts_map_updateBodyFromPart [simp]:
  "parts_map (PartBody_updateBodyFromPart w i rt) = parts_map rt"
  by (simp add: PartBody_updateBodyFromPart_def split: option.splits)

lemma parts_map_initBodyFromPart [simp]:
  "parts_map (PartBody_initBodyFromPart w i rt) = parts_map rt"
  by (simp add: PartBody_initBodyFromPart_def)

lemma parts_map_get_body [simp]:
  "parts_map (snd (PartBody_get_body w i rt)) = parts_map rt"
  by (simp add: PartBody_get_body_def Let_def)

lemma parts_map_addToWorld [simp]:
  "parts_map (PartBody_addToWorld w i rt) = parts_map rt"
proof -
  obtain slot rt' where g: "PartBody_get_body w i rt = (slot, rt')"
    by (cases "PartBody_get_body w i rt")
  then have "parts_map rt' = parts_map rt"
    using parts_map_get_body [of w i rt] by simp
  then show ?thesis
    by (cases slot) (simp_all add: PartBody_addToWorld_def g)
qed

lemma Router_addPart_tracks:
  assumes "Router_addPart p w rt = (None, rt')"
  shows "Map_has (parts_map rt') p"
proof (cases "Map_has (parts_map rt) p")
  case True
  then show ?thesis using assms by (simp add: Router_addPart_def)
next
  case False
  obtain r rt1 where m: "PartBodyFactory_make w p rt = (r, rt1)"
    by (cases "PartBodyFactory_make w p rt")
  show ?thesis
  proof (cases r)
    case (Inl e)
    then show ?thesis using assms False m by (simp add: Router_addPart_def)
  next
    case (Inr partBody)
    then have "rt' = PartBody_addToWorld w partBody
        (rt1\<lparr> parts_map := AList.update p partBody (parts_map rt1) \<rparr>)"
      using assms False m by (simp add: Router_addPart_def)
    then show ?thesis
      by (simp add: Map_has_def AList.update_conv')
  qed
qed

lemma Router_addPart_twice:
  assumes "fst (Router_addPart p w rt) = None"
  shows "Router_addPart p w (snd (Router_addPart p w rt)) = Router_addPart p w rt"
proof -
  obtain rt' where r: "Router_addPart p w rt = (None, rt')"
    using assms by (cases "Router_addPart p w rt") simp
  from Router_addPart_tracks [OF r] show ?thesis
    by (simp add: r) (simp add: Router_addPart_def)
qed

lemma bodies_unused_update [simp]: "bodies (rt\<lparr> unused := u \<rparr>) = bodies rt"
  by simp

lemma PartBody_set_part_same_type:
  assumes "pb_type (bodies rt i) = ptype (heap w p)"
  shows "fst (PartBody_set_part w i (Some p) rt) = None"
  using assms by (simp add: PartBody_set_part_def)

lemma PartBodyFactory_make_returns:
  assumes "poolsMatchTypes rt"
  shows "\<exists>i rt'. PartBodyFactory_make w p rt = (Inr i, rt')"
proof -
  define t where "t = ptype (heap w p)"
  define rt1 where "rt1 = (if \<not> Map_has (unused rt) t
     then rt\<lparr> unused := AList.update t [] (unused rt) \<rparr> else rt)"
  define available where "available = (case map_of (unused rt1) t of None \<Rightarrow> [] | Some l \<Rightarrow> l)"
  define choice where "choice = (if length available > 0 \<and> reuse rt1
     then (last available, rt1\<lparr> unused := AList.update t (butlast available) (unused rt1) \<rparr>)
     else new_PartBody w p rt1)"
  define rt3 where "rt3 = (snd choice)\<lparr> used := Set_add (fst choice) (used (snd choice)) \<rparr>"
  have make: "PartBodyFactory_make w p rt =
      (case PartBody_set_part w (fst choice) (Some p) rt3 of
         (Some e, rt4) \<Rightarrow> (Inl e, rt4) | (None, rt4) \<Rightarrow> (Inr (fst choice), rt4))"
    unfolding PartBodyFactory_make_def Let_def t_def rt1_def available_def choice_def rt3_def
    by (simp add: case_prod_beta)
  have b1: "bodies rt1 = bodies rt" by (simp add: rt1_def)
  have ty: "pb_type (bodies rt3 (fst choice)) = t"
  proof (cases "length available > 0 \<and> reuse rt1")
    case True
    then have ne: "available \<noteq> []" by auto
    then obtain l where l: "map_of (unused rt1) t = Some l" "available = l"
      unfolding available_def by (cases "map_of (unused rt1) t") auto
    have "map_of (unused rt) t = Some l"
      using l ne by (auto simp: rt1_def Map_has_def AList.update_conv' split: if_splits)
    moreover have "last l \<in> set l" using ne l by simp
    ultimately have "pb_type (bodies rt (last l)) = t"
      using assms by (auto simp: poolsMatchTypes_def)
    then show ?thesis using True l by (simp add: rt3_def choice_def b1)
  next
    case False
    then have "choice = new_PartBody w p rt1" by (auto simp: choice_def)
    then show ?thesis by (simp add: rt3_def new_PartBody_def t_def)
  qed
  obtain e rt4 where s: "PartBody_set_part w (fst choice) (Some p) rt3 = (e, rt4)"
    by (cases "PartBody_set_part w (fst choice) (Some p) rt3")
  have "e = None"
    using PartBody_set_part_same_type [of rt3 "fst choice" w p] ty s by (simp add: t_def)
  then show ?thesis by (simp add: make s)
qed

lemma Router_addPart_returns:
  assumes "poolsMatchTypes rt"
  shows "fst (Router_addPart p w rt) = None"
  using PartBodyFactory_make_returns [OF assms, of w p]
  by (auto simp: Router_addPart_def)

lemma Router_removePart_untracks:
  "\<not> Map_has (parts_map (snd (snd (Router_removePart p (w, rt))))) p"
  by (auto simp: Router_removePart_def Let_def Map_has_def AList.delete_conv'
      split: option.splits prod.splits)

lemma Router_removePart_twice:
  "Router_removePart p (snd (Router_removePart p (w, rt))) = (None, snd (Router_removePart p (w, rt)))"
proof -
  obtain e w' rt' where r: "Router_removePart p (w, rt) = (e, w', rt')"
    by (cases "Router_removePart p (w, rt)") auto
  have "map_of (parts_map rt') p = None"
    using Router_removePart_untracks [of p w rt] by (simp add: r Map_has_def)
  then show ?thesis by (simp add: r) (simp add: Router_removePart_def)
qed

lemma used_set_part [simp]: "used (snd (PartBody_set_part w i part rt)) = used rt"
  by (simp add: PartBody_set_part_def PartBody_initBodyFromPart_def PartBody_resetBody_def
      PartBody_updateBodyFromPart_def updBody_def split: option.splits)

lemma PartBodyFactory_release_twice:
  "PartBodyFactory_release w i (PartBodyFactory_release w i rt) = PartBodyFactory_release w i rt"
proof -
  have "i \<notin> set (used (PartBodyFactory_release w i rt))"
    by (simp add: PartBodyFactory_release_def Let_def Set_delete_def)
  then show ?thesis
    by (subst PartBodyFactory_release_def) simp
qed


text \<open>The router as its field initialisers leave it.\<close>

definition newRouter :: Router where
  "newRouter = \<lparr> parts_map = [], ballNeighbors = [], world = [],
     bodies = (\<lambda>i. \<lparr> pb_type = BLANK, pb_part = None, pb_body = Unbuilt,
       pb_partChangeCounter = None, pb_bodyFlipped = False, pb_compositePosition = (0, 0) \<rparr>),
     nextBody = 0, reuse = False, unused = [], used = [] \<rparr>"

text \<open>
  Claim C7. \<^verbatim>\<open>addPart\<close> returns normally whenever the pools are well formed, and a second
  \<^verbatim>\<open>addPart\<close> of the same part right after a first that returned changes nothing: world,
  part map and pools are those the first call left. A second \<^verbatim>\<open>removePart\<close> of the same
  part right after a first changes nothing and throws nothing, whatever the first did.
  Releasing an instance to the factory twice leaves what releasing it once leaves.
\<close>

theorem C7_router_add_remove_idempotent:
  "(poolsMatchTypes rt \<longrightarrow> fst (Router_addPart p w rt) = None)
   \<and> (fst (Router_addPart p w rt) = None \<longrightarrow>
        Router_addPart p w (snd (Router_addPart p w rt)) = (None, snd (Router_addPart p w rt)))
   \<and> Router_removePart p (snd (Router_removePart p (w, rt)))
        = (None, snd (Router_removePart p (w, rt)))
   \<and> PartBodyFactory_release w i (PartBodyFactory_release w i rt)
        = PartBodyFactory_release w i rt"
proof -
  have "Router_addPart p w (snd (Router_addPart p w rt)) = (None, snd (Router_addPart p w rt))"
    if "fst (Router_addPart p w rt) = None"
    using Router_addPart_twice [OF that] that
    by (cases "Router_addPart p w rt") simp
  then show ?thesis
    by (simp add: Router_addPart_returns Router_removePart_twice PartBodyFactory_release_twice)
qed

lemma newRouter_add:
  "Router_addPart 0 bitSim newRouter =
     (None, newRouter\<lparr> parts_map := [(0, 0)], world := [0],
        bodies := (bodies newRouter)(0 := \<lparr> pb_type = BIT, pb_part = Some 0, pb_body = Body,
          pb_partChangeCounter = Some 0, pb_bodyFlipped = False,
          pb_compositePosition = (0, 0) \<rparr>),
        nextBody := 1, unused := [(BIT, [])], used := [0] \<rparr>)"
  by (simp add: Router_addPart_def PartBodyFactory_make_def PartBody_set_part_def
      PartBody_addToWorld_def PartBody_get_body_def PartBody_initBodyFromPart_def
      PartBody_updateBodyFromPart_def new_PartBody_def updBody_def Set_add_def Map_has_def
      newRouter_def bitSim_def newPart_def Let_def)

theorem C7_witness:
  "poolsMatchTypes newRouter
   \<and> fst (Router_addPart 0 bitSim newRouter) = None
   \<and> world (snd (Router_addPart 0 bitSim newRouter)) = [0]
   \<and> Router_addPart 0 bitSim (snd (Router_addPart 0 bitSim newRouter))
        = (None, snd (Router_addPart 0 bitSim newRouter))"
proof -
  have p: "poolsMatchTypes newRouter"
    by (simp add: poolsMatchTypes_def newRouter_def)
  from C7_router_add_remove_idempotent [of newRouter 0 bitSim 0] p
  show ?thesis by (simp add: newRouter_add)
qed

subsection \<open>The activation window\<close>

text \<open>
  \<^verbatim>\<open>Math.round\<close> rounds halves up. \<^verbatim>\<open>addNeighborParts\<close> runs one step per ball of the board,
  then adds and removes parts; \<open>Scan\<close> holds what the steps share: the board, the router
  and the two local sets.
\<close>

definition js_round :: "real \<Rightarrow> int" where
  "js_round x = \<lfloor>x + 1/2\<rfloor>"

definition Board_removeBall :: "nat \<Rightarrow> Sim \<Rightarrow> Sim" where
  "Board_removeBall ball w =
     (if ball \<in> set (balls w)
      then w\<lparr> balls := Set_delete ball (balls w),
               boardChangeCounter := boardChangeCounter w + 1 \<rparr>
      else w)"

definition neighborhood :: "Sim \<Rightarrow> int \<Rightarrow> int \<Rightarrow> nat list" where
  "neighborhood w column' row' =
     concat (map (\<lambda>c. concat (map (\<lambda>r.
        case getPart w (column' + c) (row' + r) of None \<Rightarrow> [] | Some part \<Rightarrow> [part])
        [-1, 0, 1])) [-1, 0, 1])"

record Scan =
  sim :: Sim
  router :: Router
  addParts :: "nat list"
  removeParts :: "nat list"

definition ballStep :: "bool \<Rightarrow> nat \<Rightarrow> Scan \<Rightarrow> Scan" where
  "ballStep force ball s =
     (let w = sim s; rt = router s;
          column' = js_round (column (heap w ball));
          row' = js_round (row (heap w ball))
      in
      if row' > int (rowCount w) then s\<lparr> sim := Board_removeBall ball w \<rparr>
      else if \<not> force \<and> Map_has (ballNeighbors rt) ball
              \<and> lastColumn (heap w ball) = Some column'
              \<and> (lastRow (heap w ball) = Some row' \<or> lastRow (heap w ball) = Some (row' + 1))
      then s\<lparr> removeParts :=
                fold Set_delete (case map_of (ballNeighbors rt) ball of None \<Rightarrow> [] | Some n \<Rightarrow> n)
                  (Set_delete ball (removeParts s)) \<rparr>
      else
        let found = neighborhood w column' row' in
        \<lparr> sim = updPart ball (\<lambda>p. p\<lparr> lastColumn := Some column', lastRow := Some row' \<rparr>) w,
          router = rt\<lparr> ballNeighbors := AList.update ball (fold Set_add found []) (ballNeighbors rt) \<rparr>,
          addParts = fold Set_add found (Set_add ball (addParts s)),
          removeParts = fold Set_delete found (Set_delete ball (removeParts s)) \<rparr>)"

fun addAll :: "nat list \<Rightarrow> Sim \<Rightarrow> Router \<Rightarrow> Error option \<times> Router" where
  "addAll [] w rt = (None, rt)"
| "addAll (part # rest) w rt =
     (case Router_addPart part w rt of
        (Some e, rt') \<Rightarrow> (Some e, rt')
      | (None, rt') \<Rightarrow> addAll rest w rt')"

fun removeAll_parts :: "nat list \<Rightarrow> Sim \<times> Router \<Rightarrow> Error option \<times> Sim \<times> Router" where
  "removeAll_parts [] s = (None, s)"
| "removeAll_parts (part # rest) s =
     (case Router_removePart part s of
        (Some e, s') \<Rightarrow> (Some e, s')
      | (None, s') \<Rightarrow> removeAll_parts rest s')"

definition addNeighborParts :: "bool \<Rightarrow> Sim \<times> Router \<Rightarrow> Error option \<times> Sim \<times> Router" where
  "addNeighborParts force s =
     (case s of (w, rt) \<Rightarrow>
        let scan = fold (ballStep force) (balls w)
              \<lparr> sim = w, router = rt, addParts = [], removeParts = map fst (parts_map rt) \<rparr>
        in case addAll (addParts scan) (sim scan) (router scan) of
             (Some e, rt') \<Rightarrow> (Some e, sim scan, rt')
           | (None, rt') \<Rightarrow> removeAll_parts (removeParts scan) (sim scan, rt'))"

lemma set_Set_delete [simp]: "set (Set_delete x xs) = set xs - {x}"
  by (auto simp: Set_delete_def)

lemma set_fold_Set_delete [simp]: "set (fold Set_delete ys xs) = set xs - set ys"
  by (induction ys arbitrary: xs) auto

lemma ballNeighbors_updBody [simp]: "ballNeighbors (updBody i f rt) = ballNeighbors rt"
  by (simp add: updBody_def)

lemma ballNeighbors_updateBodyFromPart [simp]:
  "ballNeighbors (PartBody_updateBodyFromPart w i rt) = ballNeighbors rt"
  by (simp add: PartBody_updateBodyFromPart_def split: option.splits)

lemma ballNeighbors_initBodyFromPart [simp]:
  "ballNeighbors (PartBody_initBodyFromPart w i rt) = ballNeighbors rt"
  by (simp add: PartBody_initBodyFromPart_def)

lemma ballNeighbors_get_body [simp]:
  "ballNeighbors (snd (PartBody_get_body w i rt)) = ballNeighbors rt"
  by (simp add: PartBody_get_body_def Let_def)

lemma ballNeighbors_addToWorld [simp]:
  "ballNeighbors (PartBody_addToWorld w i rt) = ballNeighbors rt"
proof -
  obtain slot rt' where g: "PartBody_get_body w i rt = (slot, rt')"
    by (cases "PartBody_get_body w i rt")
  then have "ballNeighbors rt' = ballNeighbors rt"
    using ballNeighbors_get_body [of w i rt] by simp
  then show ?thesis
    by (cases slot) (simp_all add: PartBody_addToWorld_def g)
qed

lemma frame_resetBody [simp]:
  "parts_map (PartBody_resetBody i rt) = parts_map rt"
  "ballNeighbors (PartBody_resetBody i rt) = ballNeighbors rt"
  by (simp_all add: PartBody_resetBody_def)

lemma frame_set_part [simp]:
  "parts_map (snd (PartBody_set_part w i part rt)) = parts_map rt"
  "ballNeighbors (snd (PartBody_set_part w i part rt)) = ballNeighbors rt"
  by (simp_all add: PartBody_set_part_def split: option.splits)

lemma frame_make [simp]:
  "parts_map (snd (PartBodyFactory_make w p rt)) = parts_map rt"
  "ballNeighbors (snd (PartBodyFactory_make w p rt)) = ballNeighbors rt"
proof -
  define t where "t = ptype (heap w p)"
  define rt1 where "rt1 = (if \<not> Map_has (unused rt) t
     then rt\<lparr> unused := AList.update t [] (unused rt) \<rparr> else rt)"
  define available where "available = (case map_of (unused rt1) t of None \<Rightarrow> [] | Some l \<Rightarrow> l)"
  define choice where "choice = (if length available > 0 \<and> reuse rt1
     then (last available, rt1\<lparr> unused := AList.update t (butlast available) (unused rt1) \<rparr>)
     else new_PartBody w p rt1)"
  define rt3 where "rt3 = (snd choice)\<lparr> used := Set_add (fst choice) (used (snd choice)) \<rparr>"
  have make: "PartBodyFactory_make w p rt =
      (case PartBody_set_part w (fst choice) (Some p) rt3 of
         (Some e, rt4) \<Rightarrow> (Inl e, rt4) | (None, rt4) \<Rightarrow> (Inr (fst choice), rt4))"
    unfolding PartBodyFactory_make_def Let_def t_def rt1_def available_def choice_def rt3_def
    by (simp add: case_prod_beta)
  have f3: "parts_map rt3 = parts_map rt \<and> ballNeighbors rt3 = ballNeighbors rt"
    by (simp add: rt3_def choice_def rt1_def new_PartBody_def)
  obtain e rt4 where s: "PartBody_set_part w (fst choice) (Some p) rt3 = (e, rt4)"
    by (cases "PartBody_set_part w (fst choice) (Some p) rt3")
  have "parts_map rt4 = parts_map rt3 \<and> ballNeighbors rt4 = ballNeighbors rt3"
    using frame_set_part [of w "fst choice" "Some p" rt3] by (simp add: s)
  then show "parts_map (snd (PartBodyFactory_make w p rt)) = parts_map rt"
    "ballNeighbors (snd (PartBodyFactory_make w p rt)) = ballNeighbors rt"
    using f3 by (cases e; simp add: make s)+
qed

lemma frame_release [simp]:
  "parts_map (PartBodyFactory_release w i rt) = parts_map rt"
  "ballNeighbors (PartBodyFactory_release w i rt) = ballNeighbors rt"
  by (simp_all add: PartBodyFactory_release_def Let_def)

lemma Router_addPart_frame:
  "ballNeighbors (snd (Router_addPart p w rt)) = ballNeighbors rt"
  "map_of (parts_map rt) x \<noteq> None \<Longrightarrow>
     map_of (parts_map (snd (Router_addPart p w rt))) x = map_of (parts_map rt) x"
proof -
  obtain r rt1 where m: "PartBodyFactory_make w p rt = (r, rt1)"
    by (cases "PartBodyFactory_make w p rt")
  have f: "parts_map rt1 = parts_map rt" "ballNeighbors rt1 = ballNeighbors rt"
    using frame_make [of w p rt] by (simp_all add: m)
  show "ballNeighbors (snd (Router_addPart p w rt)) = ballNeighbors rt"
    by (cases r) (simp_all add: Router_addPart_def m f)
  show "map_of (parts_map (snd (Router_addPart p w rt))) x = map_of (parts_map rt) x"
    if "map_of (parts_map rt) x \<noteq> None"
    using that
    by (cases r) (auto simp: Router_addPart_def m f Map_has_def AList.update_conv')
qed

lemma addAll_frame:
  "ballNeighbors (snd (addAll xs w rt)) = ballNeighbors rt
   \<and> (map_of (parts_map rt) x \<noteq> None \<longrightarrow>
        map_of (parts_map (snd (addAll xs w rt))) x = map_of (parts_map rt) x)"
proof (induction xs arbitrary: rt)
  case Nil
  then show ?case by simp
next
  case (Cons p xs)
  obtain e rt1 where a: "Router_addPart p w rt = (e, rt1)"
    by (cases "Router_addPart p w rt")
  have f: "ballNeighbors rt1 = ballNeighbors rt"
    "map_of (parts_map rt) x \<noteq> None \<Longrightarrow> map_of (parts_map rt1) x = map_of (parts_map rt) x"
    using Router_addPart_frame(1) [of p w rt] Router_addPart_frame(2) [of rt x p w]
    by (simp_all add: a)
  show ?case
  proof (cases e)
    case None
    then show ?thesis using Cons.IH [of rt1] f by (auto simp: a)
  next
    case (Some err)
    then show ?thesis using f by (simp add: a)
  qed
qed

lemma heap_animate_positive [simp]:
  "num_gt t (Num 0) \<Longrightarrow> heap (Animator_animate s p a b t w) = heap w"
  by (simp add: Animator_animate_def Let_def)

lemma heap_restoreRestingRotation [simp]:
  "heap (snd (restoreRestingRotation p w rt)) = heap w"
  by (simp add: restoreRestingRotation_def split: option.splits)

lemma Router_removePart_frame:
  "ballNeighbors (snd (snd (Router_removePart p (w, rt)))) = ballNeighbors rt"
  "heap (fst (snd (Router_removePart p (w, rt)))) = heap w"
  "x \<noteq> p \<Longrightarrow> map_of (parts_map (snd (snd (Router_removePart p (w, rt))))) x = map_of (parts_map rt) x"
proof -
  show "ballNeighbors (snd (snd (Router_removePart p (w, rt)))) = ballNeighbors rt"
    by (simp add: Router_removePart_def Let_def PartBody_removeFromWorld_def case_prod_beta
        split: option.splits)
  show "heap (fst (snd (Router_removePart p (w, rt)))) = heap w"
    by (simp add: Router_removePart_def Let_def case_prod_beta split: option.splits)
  show "map_of (parts_map (snd (snd (Router_removePart p (w, rt))))) x = map_of (parts_map rt) x"
    if "x \<noteq> p"
    using that
    by (simp add: Router_removePart_def Let_def PartBody_removeFromWorld_def case_prod_beta
        AList.delete_conv' split: option.splits)
qed

lemma removeAll_parts_frame:
  "ballNeighbors (snd (snd (removeAll_parts xs (w, rt)))) = ballNeighbors rt
   \<and> heap (fst (snd (removeAll_parts xs (w, rt)))) = heap w
   \<and> (x \<notin> set xs \<longrightarrow>
        map_of (parts_map (snd (snd (removeAll_parts xs (w, rt))))) x = map_of (parts_map rt) x)"
proof (induction xs arbitrary: w rt)
  case Nil
  then show ?case by simp
next
  case (Cons p xs)
  obtain e w1 rt1 where a: "Router_removePart p (w, rt) = (e, w1, rt1)"
    by (cases "Router_removePart p (w, rt)") auto
  have f: "ballNeighbors rt1 = ballNeighbors rt" "heap w1 = heap w"
    "x \<noteq> p \<Longrightarrow> map_of (parts_map rt1) x = map_of (parts_map rt) x"
    using Router_removePart_frame(1) [of p w rt] Router_removePart_frame(2) [of p w rt]
      Router_removePart_frame(3) [of x p w rt]
    by (simp_all add: a)
  show ?case
  proof (cases e)
    case None
    then show ?thesis using Cons.IH [of w1 rt1] f by (auto simp: a)
  next
    case (Some err)
    then show ?thesis using f by (simp add: a)
  qed
qed


text \<open>
  The test of the locality cache and the test for a ball that dropped off the board, as
  \<open>ballStep\<close> makes them.
\<close>

definition cacheHit :: "Sim \<Rightarrow> Router \<Rightarrow> nat \<Rightarrow> bool" where
  "cacheHit w rt ball =
     (Map_has (ballNeighbors rt) ball
      \<and> lastColumn (heap w ball) = Some (js_round (column (heap w ball)))
      \<and> (lastRow (heap w ball) = Some (js_round (row (heap w ball)))
         \<or> lastRow (heap w ball) = Some (js_round (row (heap w ball)) + 1)))"

definition droppedOff :: "Sim \<Rightarrow> nat \<Rightarrow> bool" where
  "droppedOff w ball = (js_round (row (heap w ball)) > int (rowCount w))"

text \<open>What the steps of the other balls leave alone.\<close>

definition scanKeeps :: "Sim \<Rightarrow> Router \<Rightarrow> nat \<Rightarrow> Scan \<Rightarrow> bool" where
  "scanKeeps w rt ball s =
     (map_of (ballNeighbors (router s)) ball = map_of (ballNeighbors rt) ball
      \<and> heap (sim s) ball = heap w ball
      \<and> rowCount (sim s) = rowCount w
      \<and> parts_map (router s) = parts_map rt)"

definition rescan :: "nat \<Rightarrow> Scan \<Rightarrow> Scan" where
  "rescan ball s =
     (let w = sim s; rt = router s;
          column' = js_round (column (heap w ball));
          row' = js_round (row (heap w ball));
          found = neighborhood w column' row' in
        \<lparr> sim = updPart ball (\<lambda>p. p\<lparr> lastColumn := Some column', lastRow := Some row' \<rparr>) w,
          router = rt\<lparr> ballNeighbors := AList.update ball (fold Set_add found []) (ballNeighbors rt) \<rparr>,
          addParts = fold Set_add found (Set_add ball (addParts s)),
          removeParts = fold Set_delete found (Set_delete ball (removeParts s)) \<rparr>)"

lemma ballStep_cases:
  "ballStep force ball s =
     (if droppedOff (sim s) ball then s\<lparr> sim := Board_removeBall ball (sim s) \<rparr>
      else if \<not> force \<and> cacheHit (sim s) (router s) ball
      then s\<lparr> removeParts := fold Set_delete
           (case map_of (ballNeighbors (router s)) ball of None \<Rightarrow> [] | Some n \<Rightarrow> n)
           (Set_delete ball (removeParts s)) \<rparr>
      else rescan ball s)"
  unfolding ballStep_def cacheHit_def droppedOff_def rescan_def Let_def by simp

lemma ballStep_hit:
  assumes "cacheHit (sim s) (router s) ball" "\<not> droppedOff (sim s) ball"
  shows "ballStep False ball s =
     s\<lparr> removeParts := fold Set_delete
           (case map_of (ballNeighbors (router s)) ball of None \<Rightarrow> [] | Some n \<Rightarrow> n)
           (Set_delete ball (removeParts s)) \<rparr>"
  using assms by (simp add: ballStep_cases)

lemma scanKeeps_removeBall:
  "scanKeeps w rt ball s \<Longrightarrow> scanKeeps w rt ball (s\<lparr> sim := Board_removeBall b (sim s) \<rparr>)"
  by (simp add: scanKeeps_def Board_removeBall_def)

lemma scanKeeps_removeParts:
  "scanKeeps w rt ball s \<Longrightarrow> scanKeeps w rt ball (s\<lparr> removeParts := r \<rparr>)"
  by (simp add: scanKeeps_def)

lemma scanKeeps_rescan:
  "b \<noteq> ball \<Longrightarrow> scanKeeps w rt ball s \<Longrightarrow> scanKeeps w rt ball (rescan b s)"
  by (simp add: scanKeeps_def rescan_def Let_def updPart_def AList.update_conv')

lemma ballStep_other_keeps:
  assumes "b \<noteq> ball" "scanKeeps w rt ball s"
  shows "scanKeeps w rt ball (ballStep force b s)"
  using assms
  by (simp add: ballStep_cases scanKeeps_removeBall scanKeeps_removeParts scanKeeps_rescan)

lemma ballStep_removeParts_subset:
  "set (removeParts (ballStep force b s)) \<subseteq> set (removeParts s)"
  by (auto simp: ballStep_cases rescan_def Let_def)

lemma cacheHit_cong:
  assumes "scanKeeps w rt ball s" "cacheHit w rt ball" "\<not> droppedOff w ball"
  shows "cacheHit (sim s) (router s) ball \<and> \<not> droppedOff (sim s) ball"
  using assms by (simp add: scanKeeps_def cacheHit_def droppedOff_def Map_has_def)

lemma scan_keeps:
  assumes "cacheHit w rt ball" "\<not> droppedOff w ball" "scanKeeps w rt ball s"
  shows "scanKeeps w rt ball (fold (ballStep False) bs s)
    \<and> set (removeParts (fold (ballStep False) bs s)) \<subseteq> set (removeParts s)
    \<and> (ball \<in> set bs \<longrightarrow>
         set (removeParts (fold (ballStep False) bs s))
           \<inter> insert ball (set (case map_of (ballNeighbors rt) ball of None \<Rightarrow> [] | Some n \<Rightarrow> n)) = {})"
  using assms(3)
proof (induction bs arbitrary: s)
  case Nil
  then show ?case by simp
next
  case (Cons b bs)
  let ?s1 = "ballStep False b s"
  have keeps1: "scanKeeps w rt ball ?s1"
  proof (cases "b = ball")
    case True
    from cacheHit_cong [OF Cons.prems assms(1,2)]
    have "?s1 = s\<lparr> removeParts := fold Set_delete
           (case map_of (ballNeighbors (router s)) ball of None \<Rightarrow> [] | Some n \<Rightarrow> n)
           (Set_delete ball (removeParts s)) \<rparr>"
      using True ballStep_hit by simp
    then show ?thesis using Cons.prems by (simp add: scanKeeps_def)
  next
    case False
    then show ?thesis using Cons.prems by (rule ballStep_other_keeps)
  qed
  note IH = Cons.IH [OF keeps1]
  have sub1: "set (removeParts ?s1) \<subseteq> set (removeParts s)"
    by (rule ballStep_removeParts_subset)
  have hit1: "set (removeParts ?s1)
      \<inter> insert ball (set (case map_of (ballNeighbors rt) ball of None \<Rightarrow> [] | Some n \<Rightarrow> n)) = {}"
    if "b = ball"
  proof -
    from cacheHit_cong [OF Cons.prems assms(1,2)]
    have "?s1 = s\<lparr> removeParts := fold Set_delete
           (case map_of (ballNeighbors (router s)) ball of None \<Rightarrow> [] | Some n \<Rightarrow> n)
           (Set_delete ball (removeParts s)) \<rparr>"
      using that ballStep_hit by simp
    moreover have "map_of (ballNeighbors (router s)) ball = map_of (ballNeighbors rt) ball"
      using Cons.prems by (simp add: scanKeeps_def)
    ultimately show ?thesis by auto
  qed
  have "set (removeParts (fold (ballStep False) bs ?s1)) \<subseteq> set (removeParts ?s1)"
    using IH by blast
  then have sub: "set (removeParts (fold (ballStep False) bs ?s1)) \<subseteq> set (removeParts s)"
    using sub1 by blast
  have hit: "set (removeParts (fold (ballStep False) bs ?s1))
      \<inter> insert ball (set (case map_of (ballNeighbors rt) ball of None \<Rightarrow> [] | Some n \<Rightarrow> n)) = {}"
    if "ball \<in> set (b # bs)"
  proof (cases "b = ball")
    case True
    from hit1 [OF True] \<open>set (removeParts (fold (ballStep False) bs ?s1)) \<subseteq> set (removeParts ?s1)\<close>
    show ?thesis by blast
  next
    case False
    then have "ball \<in> set bs" using that by simp
    then show ?thesis using IH by blast
  qed
  show ?case
    using IH sub hit by simp
qed


text \<open>
  Claim C5, amended. Let a ball of the board pass the cache test (it is in the neighbor
  cache, its rounded column is \<^verbatim>\<open>lastColumn\<close> and its rounded row is \<^verbatim>\<open>lastRow\<close> or
  \<^verbatim>\<open>lastRow - 1\<close>) and let its rounded row be at most the row count. Then
  \<^verbatim>\<open>addNeighborParts(false)\<close> leaves the ball's recorded neighbor set, its \<^verbatim>\<open>lastColumn\<close> and
  \<^verbatim>\<open>lastRow\<close>, and every entry the part map holds for the ball or one of its recorded
  neighbors as they were, also when a later removal throws.
\<close>

theorem C5_cache_hit_keeps_activation:
  assumes "ball \<in> set (balls w)"
    and "cacheHit w rt ball"
    and "\<not> droppedOff w ball"
  shows "map_of (ballNeighbors (snd (snd (addNeighborParts False (w, rt))))) ball
           = map_of (ballNeighbors rt) ball
    \<and> lastColumn (heap (fst (snd (addNeighborParts False (w, rt)))) ball) = lastColumn (heap w ball)
    \<and> lastRow (heap (fst (snd (addNeighborParts False (w, rt)))) ball) = lastRow (heap w ball)
    \<and> (\<forall>x \<in> insert ball (set (case map_of (ballNeighbors rt) ball of None \<Rightarrow> [] | Some n \<Rightarrow> n)).
          map_of (parts_map rt) x \<noteq> None \<longrightarrow>
          map_of (parts_map (snd (snd (addNeighborParts False (w, rt))))) x = map_of (parts_map rt) x)"
proof -
  let ?nbrs = "case map_of (ballNeighbors rt) ball of None \<Rightarrow> [] | Some n \<Rightarrow> n"
  define s0 where "s0 = \<lparr> sim = w, router = rt, addParts = [], removeParts = map fst (parts_map rt) \<rparr>"
  define scan where "scan = fold (ballStep False) (balls w) s0"
  have "scanKeeps w rt ball s0" by (simp add: scanKeeps_def s0_def)
  from scan_keeps [OF assms(2,3) this, of "balls w"] assms(1)
  have keeps: "scanKeeps w rt ball scan"
    and safe: "set (removeParts scan) \<inter> insert ball (set ?nbrs) = {}"
    by (simp_all add: scan_def)
  obtain e1 rt1 where a: "addAll (addParts scan) (sim scan) (router scan) = (e1, rt1)"
    by (cases "addAll (addParts scan) (sim scan) (router scan)")
  have a1: "ballNeighbors rt1 = ballNeighbors (router scan)"
    and a2: "map_of (parts_map (router scan)) x \<noteq> None \<Longrightarrow>
      map_of (parts_map rt1) x = map_of (parts_map (router scan)) x" for x
    using addAll_frame [of "addParts scan" "sim scan" "router scan" x] by (simp_all add: a)
  obtain e2 w2 rt2 where r: "removeAll_parts (removeParts scan) (sim scan, rt1) = (e2, w2, rt2)"
    by (cases "removeAll_parts (removeParts scan) (sim scan, rt1)") auto
  have r1: "ballNeighbors rt2 = ballNeighbors rt1" and r2: "heap w2 = heap (sim scan)"
    and r3: "x \<notin> set (removeParts scan) \<Longrightarrow> map_of (parts_map rt2) x = map_of (parts_map rt1) x" for x
    using removeAll_parts_frame [of "removeParts scan" "sim scan" rt1 x] by (simp_all add: r)
  have res: "addNeighborParts False (w, rt) =
      (case e1 of Some e \<Rightarrow> (Some e, sim scan, rt1) | None \<Rightarrow> (e2, w2, rt2))"
    by (cases e1) (simp_all add: addNeighborParts_def Let_def scan_def [symmetric] s0_def [symmetric] a r)
  have k: "map_of (ballNeighbors (router scan)) ball = map_of (ballNeighbors rt) ball"
    "heap (sim scan) ball = heap w ball" "parts_map (router scan) = parts_map rt"
    using keeps by (simp_all add: scanKeeps_def)
  show ?thesis
  proof (cases e1)
    case (Some e)
    then show ?thesis using a1 a2 k by (simp add: res)
  next
    case None
    have "map_of (parts_map rt2) x = map_of (parts_map rt) x"
      if "x \<in> insert ball (set ?nbrs)" "map_of (parts_map rt) x \<noteq> None" for x
    proof -
      have "x \<notin> set (removeParts scan)" using safe that(1) by blast
      then show ?thesis using r3 [of x] a2 [of x] that(2) k(3) by simp
    qed
    then show ?thesis using None a1 r1 r2 k by (simp add: res)
  qed
qed

text \<open>
  A ball that passes the cache test below the last row: the board had four rows when the
  ball was last scanned at row 3 and has been resized to two, which does not change the
  board's change counter.
\<close>

definition fallenSim :: Sim where
  "fallenSim = \<lparr> heap = (\<lambda>r. if r = 0
        then (newPart BALL)\<lparr> row := 3, lastColumn := Some 0, lastRow := Some 3 \<rparr>
        else newPart PARTLOC),
      nextPart = 3, subjects = [], grid = [[1], [2]], columnCount = 1, rowCount = 2,
      balls = [0], boardChangeCounter = 0 \<rparr>"

definition ballRouter :: Router where
  "ballRouter = newRouter\<lparr> parts_map := [(0, 0)], ballNeighbors := [(0, [])], world := [0],
      bodies := (bodies newRouter)(0 := \<lparr> pb_type = BALL, pb_part = Some 0, pb_body = Body,
        pb_partChangeCounter = Some 0, pb_bodyFlipped = False,
        pb_compositePosition = (0, 0) \<rparr>),
      nextBody := 1, unused := [(BALL, [])], used := [0] \<rparr>"

lemma fallen_scan:
  "fold (ballStep False) (balls fallenSim)
      \<lparr> sim = fallenSim, router = ballRouter, addParts = [],
        removeParts = map fst (parts_map ballRouter) \<rparr>
   = \<lparr> sim = fallenSim\<lparr> balls := [], boardChangeCounter := 1 \<rparr>, router = ballRouter,
       addParts = [], removeParts = [0] \<rparr>"
  by (simp add: ballStep_cases droppedOff_def js_round_def fallenSim_def ballRouter_def
      newRouter_def newPart_def Board_removeBall_def Set_delete_def)

lemma fallen_result:
  "parts_map (snd (snd (addNeighborParts False (fallenSim, ballRouter)))) = []"
  by (simp add: addNeighborParts_def fallen_scan Let_def)
    (simp add: Router_removePart_def
      PartBody_removeFromWorld_def PartBodyFactory_release_def PartBody_set_part_def
      PartBody_resetBody_def updBody_def restoreRestingRotation_def restingRotation_def
      Set_delete_def Map_has_def fallenSim_def ballRouter_def newRouter_def newPart_def)

text \<open>
  Claim C5 as stated fails in that state: the ball passes the cache test and is active,
  and \<^verbatim>\<open>addNeighborParts(false)\<close> deactivates it, because the test for a ball that dropped
  off the board comes first.
\<close>

theorem C5_counterexample:
  "0 \<in> set (balls fallenSim)
   \<and> cacheHit fallenSim ballRouter 0
   \<and> map_of (parts_map ballRouter) 0 = Some 0
   \<and> map_of (parts_map (snd (snd (addNeighborParts False (fallenSim, ballRouter))))) 0 = None"
  by (simp add: fallen_result)
    (simp add: cacheHit_def js_round_def Map_has_def fallenSim_def ballRouter_def newRouter_def
      newPart_def)

definition cachedSim :: Sim where
  "cachedSim = fallenSim\<lparr> heap := (heap fallenSim)(0 :=
      (newPart BALL)\<lparr> row := 1/4, lastColumn := Some 0, lastRow := Some 1 \<rparr>) \<rparr>"

definition cachedRouter :: Router where
  "cachedRouter = ballRouter\<lparr> parts_map := [(0, 0), (1, 1)], ballNeighbors := [(0, [1, 2])] \<rparr>"

theorem C5_witness:
  "0 \<in> set (balls cachedSim) \<and> cacheHit cachedSim cachedRouter 0 \<and> \<not> droppedOff cachedSim 0
   \<and> map_of (ballNeighbors (snd (snd (addNeighborParts False (cachedSim, cachedRouter))))) 0
        = Some [1, 2]
   \<and> map_of (parts_map (snd (snd (addNeighborParts False (cachedSim, cachedRouter))))) 0 = Some 0
   \<and> map_of (parts_map (snd (snd (addNeighborParts False (cachedSim, cachedRouter))))) 1 = Some 1
   \<and> lastRow (heap (fst (snd (addNeighborParts False (cachedSim, cachedRouter)))) 0) = Some 1"
proof -
  have h: "0 \<in> set (balls cachedSim)" "cacheHit cachedSim cachedRouter 0"
    "\<not> droppedOff cachedSim 0"
    by (simp_all add: cacheHit_def droppedOff_def js_round_def Map_has_def cachedSim_def
        cachedRouter_def fallenSim_def ballRouter_def newRouter_def newPart_def)
  have v: "map_of (ballNeighbors cachedRouter) 0 = Some [1, 2]"
    "map_of (parts_map cachedRouter) 0 = Some 0" "map_of (parts_map cachedRouter) 1 = Some 1"
    "lastRow (heap cachedSim 0) = Some 1"
    by (simp_all add: cachedSim_def cachedRouter_def ballRouter_def newPart_def)
  from C5_cache_hit_keeps_activation [OF h] show ?thesis using h v by simp
qed

section \<open>The disjoint-set resolver\<close>

text \<open>
  \<^verbatim>\<open>DisjointSet\<close>: three arrays indexed by element and the number of sets. The
  constructor throws on a negative size. \<^verbatim>\<open>getRepr\<close> throws on an index out of bounds and
  otherwise follows the parent pointers in a \<^verbatim>\<open>while (true)\<close> loop, redirecting each visited
  element to its grandparent; the loop is \<open>getRepr_loop\<close>, a partial function whose value
  \<open>None\<close> stands for a loop that never ends. A method that can throw or loop returns
  \<open>(Error + 'a) option\<close>, and \<open>bind\<close> sequences such calls.
\<close>

record DisjointSet =
  parents :: "nat list"
  ranks :: "nat list"
  sizes :: "nat list"
  numSets :: int

definition new_DisjointSet :: "int \<Rightarrow> Error + DisjointSet" where
  "new_DisjointSet numElems =
     (if numElems < 0 then Inl NegativeSize
      else Inr \<lparr> parents = [0 ..< nat numElems], ranks = replicate (nat numElems) 0,
                 sizes = replicate (nat numElems) 1, numSets = numElems \<rparr>)"

partial_function (option) getRepr_loop :: "nat list \<Rightarrow> nat \<Rightarrow> nat \<Rightarrow> (nat \<times> nat list) option" where
  "getRepr_loop ps elemIndex parent =
     (let grandparent = ps ! parent in
      if grandparent = parent then Some (parent, ps)
      else getRepr_loop (ps[elemIndex := grandparent]) parent grandparent)"

definition getRepr :: "DisjointSet \<Rightarrow> int \<Rightarrow> (Error + nat \<times> DisjointSet) option" where
  "getRepr ds elemIndex =
     (if elemIndex < 0 \<or> elemIndex \<ge> int (length (parents ds)) then Some (Inl IndexOutOfBounds)
      else
        let parent = parents ds ! nat elemIndex in
        if parent = nat elemIndex then Some (Inr (nat elemIndex, ds))
        else (case getRepr_loop (parents ds) (nat elemIndex) parent of
                None \<Rightarrow> None
              | Some (repr, ps) \<Rightarrow> Some (Inr (repr, ds\<lparr> parents := ps \<rparr>))))"

definition bind :: "(Error + 'a) option \<Rightarrow> ('a \<Rightarrow> (Error + 'b) option) \<Rightarrow> (Error + 'b) option" where
  "bind m f = (case m of None \<Rightarrow> None | Some (Inl e) \<Rightarrow> Some (Inl e) | Some (Inr x) \<Rightarrow> f x)"

definition mergeSets :: "DisjointSet \<Rightarrow> int \<Rightarrow> int \<Rightarrow> (Error + bool \<times> DisjointSet) option" where
  "mergeSets ds elemIndex0 elemIndex1 =
     bind (getRepr ds elemIndex0) (\<lambda>(repr0, ds1).
     bind (getRepr ds1 elemIndex1) (\<lambda>(repr1, ds2).
       if repr0 = repr1 then Some (Inr (False, ds2))
       else
         let cmp = int (ranks ds2 ! repr0) - int (ranks ds2 ! repr1);
             ds3 = (if cmp = 0 then ds2\<lparr> ranks := (ranks ds2)[repr0 := ranks ds2 ! repr0 + 1] \<rparr>
                    else ds2);
             r0 = (if cmp < 0 then repr1 else repr0);
             r1 = (if cmp < 0 then repr0 else repr1);
             ds4 = ds3\<lparr> parents := (parents ds3)[r1 := r0] \<rparr>;
             ds5 = ds4\<lparr> sizes := (sizes ds4)[r0 := sizes ds4 ! r0 + sizes ds4 ! r1] \<rparr>;
             ds6 = ds5\<lparr> sizes := (sizes ds5)[r1 := 0] \<rparr>
         in Some (Inr (True, ds6\<lparr> numSets := numSets ds6 - 1 \<rparr>))))"

subsection \<open>Representatives\<close>

text \<open>
  \<open>repOf ps rs i\<close> is the root reached from \<open>i\<close> by parent pointers, as long as the ranks
  increase strictly along them; \<open>ufOK\<close> says that every parent is in range and that ranks
  increase strictly towards the roots. Under \<open>ufOK\<close> the loop of \<^verbatim>\<open>getRepr\<close> ends and
  returns \<open>repOf\<close>.
\<close>

function repOf :: "nat list \<Rightarrow> nat list \<Rightarrow> nat \<Rightarrow> nat" where
  "repOf ps rs i =
     (if i < length ps \<and> length rs = length ps \<and> ps ! i < length ps \<and> ps ! i \<noteq> i
         \<and> rs ! i < rs ! (ps ! i)
      then repOf ps rs (ps ! i) else i)"
  by pat_completeness auto
termination
proof (relation "measure (\<lambda>(ps, rs, i). sum_list rs - rs ! i)")
  show "wf (measure (\<lambda>(ps, rs, i). sum_list rs - rs ! i))" by simp
next
  fix ps rs :: "nat list" and i :: nat
  assume a: "i < length ps \<and> length rs = length ps \<and> ps ! i < length ps \<and> ps ! i \<noteq> i
         \<and> rs ! i < rs ! (ps ! i)"
  then have "rs ! (ps ! i) \<in> set rs" by simp
  then have "rs ! (ps ! i) \<le> sum_list rs" by (simp add: member_le_sum_list)
  then show "((ps, rs, ps ! i), ps, rs, i) \<in> measure (\<lambda>(ps, rs, i). sum_list rs - rs ! i)"
    using a by (simp add: diff_less_mono2)
qed

declare repOf.simps [simp del]

definition ufOK :: "nat list \<Rightarrow> nat list \<Rightarrow> bool" where
  "ufOK ps rs =
     (length rs = length ps
      \<and> (\<forall>i < length ps. ps ! i < length ps \<and> (ps ! i \<noteq> i \<longrightarrow> rs ! i < rs ! (ps ! i))))"

lemma repOf_root: "ps ! i = i \<Longrightarrow> repOf ps rs i = i"
  by (subst repOf.simps) simp

lemma repOf_step:
  "ufOK ps rs \<Longrightarrow> i < length ps \<Longrightarrow> ps ! i \<noteq> i \<Longrightarrow> repOf ps rs i = repOf ps rs (ps ! i)"
  by (subst repOf.simps) (simp add: ufOK_def)

lemma ufOK_induct [consumes 2, case_names root step]:
  assumes "ufOK ps rs" "i < length ps"
    and "\<And>i. i < length ps \<Longrightarrow> ps ! i = i \<Longrightarrow> P i"
    and "\<And>i. i < length ps \<Longrightarrow> ps ! i \<noteq> i \<Longrightarrow> P (ps ! i) \<Longrightarrow> P i"
  shows "P i"
  using assms(2)
proof (induction "sum_list rs - rs ! i" arbitrary: i rule: less_induct)
  case less
  show ?case
  proof (cases "ps ! i = i")
    case True
    then show ?thesis using less.prems assms(3) by simp
  next
    case False
    have lt: "ps ! i < length ps" and rk: "rs ! i < rs ! (ps ! i)"
      using assms(1) less.prems False by (auto simp: ufOK_def)
    have "rs ! (ps ! i) \<in> set rs" using lt assms(1) by (simp add: ufOK_def)
    then have "rs ! (ps ! i) \<le> sum_list rs" by (simp add: member_le_sum_list)
    then have "sum_list rs - rs ! (ps ! i) < sum_list rs - rs ! i"
      using rk by (simp add: diff_less_mono2)
    from less.hyps [OF this lt] show ?thesis using assms(4) less.prems False by simp
  qed
qed

lemma repOf_bound:
  assumes "ufOK ps rs" "i < length ps"
  shows "repOf ps rs i < length ps"
  using assms
proof (induction rule: ufOK_induct)
  case (root i)
  then show ?case by (simp add: repOf_root)
next
  case (step i)
  then show ?case using assms(1) by (simp add: repOf_step)
qed

lemma repOf_is_root:
  assumes "ufOK ps rs" "i < length ps"
  shows "ps ! (repOf ps rs i) = repOf ps rs i"
  using assms
proof (induction rule: ufOK_induct)
  case (root i)
  then show ?case by (simp add: repOf_root)
next
  case (step i)
  then show ?case using assms(1) by (simp add: repOf_step)
qed

lemma repOf_idem:
  "ufOK ps rs \<Longrightarrow> i < length ps \<Longrightarrow> repOf ps rs (repOf ps rs i) = repOf ps rs i"
  by (simp add: repOf_is_root repOf_root)

lemma repOf_rank_le:
  assumes "ufOK ps rs" "i < length ps"
  shows "rs ! i \<le> rs ! (repOf ps rs i)"
  using assms
proof (induction rule: ufOK_induct)
  case (root i)
  then show ?case by (simp add: repOf_root)
next
  case (step i)
  have "rs ! i < rs ! (ps ! i)" using assms(1) step.hyps by (simp add: ufOK_def)
  then show ?case using step assms(1) by (simp add: repOf_step)
qed

text \<open>Path halving: redirecting an element to its grandparent changes no representative.\<close>

lemma ufOK_halve:
  assumes "ufOK ps rs" "e < length ps" "ps ! e \<noteq> e"
  shows "ufOK (ps[e := ps ! (ps ! e)]) rs"
proof -
  let ?p = "ps ! e" and ?g = "ps ! (ps ! e)"
  have p: "?p < length ps" "rs ! e < rs ! ?p" using assms by (auto simp: ufOK_def)
  then have g: "?g < length ps" "rs ! ?p \<le> rs ! ?g"
    using assms(1) by (auto simp: ufOK_def dest!: spec [of _ ?p])
  show ?thesis
    unfolding ufOK_def
  proof (intro conjI allI impI)
    show "length rs = length (ps[e := ?g])" using assms(1) by (simp add: ufOK_def)
  next
    fix i assume "i < length (ps[e := ?g])"
    then have i: "i < length ps" by simp
    show "ps[e := ?g] ! i < length (ps[e := ?g])"
      using assms(1) i g by (cases "i = e") (auto simp: ufOK_def)
  next
    fix i assume "i < length (ps[e := ?g])" and ne: "ps[e := ?g] ! i \<noteq> i"
    then have i: "i < length ps" by simp
    show "rs ! i < rs ! (ps[e := ?g] ! i)"
    proof (cases "i = e")
      case True
      then show ?thesis using p g assms(2) by simp
    next
      case False
      then show ?thesis using assms(1) i ne by (auto simp: ufOK_def)
    qed
  qed
qed

lemma repOf_halve:
  assumes "ufOK ps rs" "e < length ps" "ps ! e \<noteq> e" "i < length ps"
  shows "repOf (ps[e := ps ! (ps ! e)]) rs i = repOf ps rs i"
  using assms(1,4)
proof (induction rule: ufOK_induct)
  case (root i)
  then have "i \<noteq> e" using assms(3) by auto
  then have "ps[e := ps ! (ps ! e)] ! i = i" using root by simp
  then show ?case using root by (simp add: repOf_root)
next
  case (step i)
  let ?ps' = "ps[e := ps ! (ps ! e)]"
  have ok': "ufOK ?ps' rs" using assms(1-3) by (rule ufOK_halve)
  have p: "ps ! e < length ps" using assms by (auto simp: ufOK_def)
  show ?case
  proof (cases "i = e")
    case False
    then have nth: "?ps' ! i = ps ! i" by simp
    have "repOf ?ps' rs i = repOf ?ps' rs (ps ! i)"
      using repOf_step [OF ok', of i] step.hyps nth by simp
    then show ?thesis using step assms(1) by (simp add: repOf_step)
  next
    case True
    have e1: "repOf ps rs e = repOf ps rs (ps ! e)"
      using assms by (simp add: repOf_step)
    have IHp: "repOf ?ps' rs (ps ! e) = repOf ps rs (ps ! e)"
      using step.IH True by simp
    show ?thesis
    proof (cases "ps ! (ps ! e) = ps ! e")
      case True
      then have "?ps' = ps" by (simp add: list_update_same_conv assms)
      then show ?thesis by simp
    next
      case gne: False
      have rk: "rs ! e < rs ! (ps ! e)" "rs ! (ps ! e) < rs ! (ps ! (ps ! e))"
        using assms(1-3) p gne by (auto simp: ufOK_def)
      then have neq: "ps ! (ps ! e) \<noteq> e" by auto
      have nth_e: "?ps' ! e = ps ! (ps ! e)" using assms(2) by simp
      have nth_p: "?ps' ! (ps ! e) = ps ! (ps ! e)" using assms(3) by simp
      have "repOf ?ps' rs e = repOf ?ps' rs (ps ! (ps ! e))"
        using repOf_step [OF ok', of e] assms(2) nth_e neq by simp
      also have "\<dots> = repOf ?ps' rs (ps ! e)"
        using repOf_step [OF ok', of "ps ! e"] p nth_p gne by simp
      finally show ?thesis using True IHp e1 by simp
    qed
  qed
qed

lemma getRepr_loop_spec:
  assumes "ufOK ps rs" "e < length ps" "ps ! e \<noteq> e"
  shows "\<exists>ps'. getRepr_loop ps e (ps ! e) = Some (repOf ps rs e, ps')
           \<and> ufOK ps' rs \<and> length ps' = length ps
           \<and> (\<forall>j < length ps. repOf ps' rs j = repOf ps rs j)"
  using assms
proof (induction "sum_list rs - rs ! e" arbitrary: ps e rule: less_induct)
  case less
  let ?p = "ps ! e" and ?g = "ps ! (ps ! e)"
  have p: "?p < length ps" "rs ! e < rs ! ?p"
    using less.prems by (auto simp: ufOK_def)
  have rep_e: "repOf ps rs e = repOf ps rs ?p"
    using less.prems by (simp add: repOf_step)
  show ?case
  proof (cases "?g = ?p")
    case True
    then have "getRepr_loop ps e ?p = Some (?p, ps)"
      by (subst getRepr_loop.simps) (simp add: Let_def)
    moreover have "repOf ps rs e = ?p" using rep_e True by (simp add: repOf_root)
    ultimately show ?thesis using less.prems(1) by auto
  next
    case False
    let ?ps' = "ps[e := ?g]"
    have ok': "ufOK ?ps' rs" using less.prems by (rule ufOK_halve)
    have same: "\<forall>j < length ps. repOf ?ps' rs j = repOf ps rs j"
      using repOf_halve [OF less.prems] by simp
    have nth_p: "?ps' ! ?p = ?g" using less.prems(3) by simp
    have "rs ! ?p \<in> set rs" using p less.prems(1) by (simp add: ufOK_def)
    then have "rs ! ?p \<le> sum_list rs" by (simp add: member_le_sum_list)
    then have m: "sum_list rs - rs ! ?p < sum_list rs - rs ! e"
      using p by (simp add: diff_less_mono2)
    have "?p < length ?ps'" "?ps' ! ?p \<noteq> ?p" using p False nth_p by simp_all
    from less.hyps [OF m ok' this]
    obtain ps'' where r: "getRepr_loop ?ps' ?p ?g = Some (repOf ?ps' rs ?p, ps'')"
      "ufOK ps'' rs" "length ps'' = length ps"
      "\<forall>j < length ps. repOf ps'' rs j = repOf ?ps' rs j"
      using nth_p by auto
    have "getRepr_loop ps e ?p = getRepr_loop ?ps' ?p ?g"
      using False by (subst getRepr_loop.simps) (simp add: Let_def)
    then have "getRepr_loop ps e ?p = Some (repOf ps rs e, ps'')"
      using r(1) same p rep_e by simp
    then show ?thesis using r same by auto
  qed
qed

definition dsOK :: "DisjointSet \<Rightarrow> bool" where
  "dsOK ds = (ufOK (parents ds) (ranks ds) \<and> length (sizes ds) = length (parents ds))"

definition rep :: "DisjointSet \<Rightarrow> nat \<Rightarrow> nat" where
  "rep ds i = repOf (parents ds) (ranks ds) i"

definition sameReps :: "DisjointSet \<Rightarrow> DisjointSet \<Rightarrow> bool" where
  "sameReps ds ds' =
     (length (parents ds') = length (parents ds)
      \<and> (\<forall>j < length (parents ds). rep ds' j = rep ds j))"

lemma getRepr_spec:
  assumes "dsOK ds" "0 \<le> i" "i < int (length (parents ds))"
  shows "\<exists>ds'. getRepr ds i = Some (Inr (rep ds (nat i), ds')) \<and> dsOK ds' \<and> sameReps ds ds'"
proof (cases "parents ds ! nat i = nat i")
  case True
  then have "getRepr ds i = Some (Inr (nat i, ds))"
    using assms by (simp add: getRepr_def)
  moreover have "rep ds (nat i) = nat i" using True by (simp add: rep_def repOf_root)
  ultimately show ?thesis using assms(1) by (auto simp: sameReps_def)
next
  case False
  have ok: "ufOK (parents ds) (ranks ds)" using assms(1) by (simp add: dsOK_def)
  have lt: "nat i < length (parents ds)" using assms by simp
  from getRepr_loop_spec [OF ok lt False]
  obtain ps' where r: "getRepr_loop (parents ds) (nat i) (parents ds ! nat i)
        = Some (repOf (parents ds) (ranks ds) (nat i), ps')"
    "ufOK ps' (ranks ds)" "length ps' = length (parents ds)"
    "\<forall>j < length (parents ds). repOf ps' (ranks ds) j = repOf (parents ds) (ranks ds) j"
    by auto
  have "getRepr ds i = Some (Inr (rep ds (nat i), ds\<lparr> parents := ps' \<rparr>))"
    using assms False r(1) by (simp add: getRepr_def rep_def)
  moreover have "dsOK (ds\<lparr> parents := ps' \<rparr>)"
    using r assms(1) by (simp add: dsOK_def)
  moreover have "sameReps ds (ds\<lparr> parents := ps' \<rparr>)"
    using r by (simp add: sameReps_def rep_def)
  ultimately show ?thesis by blast
qed

lemma ufOK_link:
  assumes ok: "ufOK ps rs"
    and r0: "r0 < length ps" "ps ! r0 = r0"
    and r1: "r1 < length ps" "ps ! r1 = r1"
    and ne: "r0 \<noteq> r1"
    and len: "length rs' = length rs"
    and keep: "\<forall>i < length ps. i \<noteq> r0 \<longrightarrow> rs' ! i = rs ! i"
    and up: "rs ! r0 \<le> rs' ! r0"
    and lt: "rs ! r1 < rs' ! r0"
  shows "ufOK (ps[r1 := r0]) rs'"
  unfolding ufOK_def
proof (intro conjI allI impI)
  show "length rs' = length (ps[r1 := r0])" using ok len by (simp add: ufOK_def)
next
  fix i assume "i < length (ps[r1 := r0])"
  then have i: "i < length ps" by simp
  show "ps[r1 := r0] ! i < length (ps[r1 := r0])"
    using ok i r0 by (cases "i = r1") (auto simp: ufOK_def)
next
  fix i assume "i < length (ps[r1 := r0])" and n: "ps[r1 := r0] ! i \<noteq> i"
  then have i: "i < length ps" by simp
  show "rs' ! i < rs' ! (ps[r1 := r0] ! i)"
  proof (cases "i = r1")
    case True
    then show ?thesis using r1 keep ne lt by simp
  next
    case False
    then have nth: "ps[r1 := r0] ! i = ps ! i" by simp
    then have nr: "ps ! i \<noteq> i" using n by simp
    then have "i \<noteq> r0" using r0 by auto
    then have a: "rs' ! i = rs ! i" using keep i by simp
    have b: "rs ! i < rs ! (ps ! i)" "ps ! i < length ps" using ok i nr by (auto simp: ufOK_def)
    have "rs ! (ps ! i) \<le> rs' ! (ps ! i)"
      using keep b(2) up by (cases "ps ! i = r0") auto
    then show ?thesis using a b nth by simp
  qed
qed

lemma repOf_link:
  assumes ok: "ufOK ps rs"
    and r0: "r0 < length ps" "ps ! r0 = r0"
    and r1: "r1 < length ps" "ps ! r1 = r1"
    and ne: "r0 \<noteq> r1"
    and ok': "ufOK (ps[r1 := r0]) rs'"
    and i: "i < length ps"
  shows "repOf (ps[r1 := r0]) rs' i = (if repOf ps rs i = r1 then r0 else repOf ps rs i)"
  using ok i
proof (induction rule: ufOK_induct)
  case (root i)
  show ?case
  proof (cases "i = r1")
    case True
    have "repOf (ps[r1 := r0]) rs' r1 = repOf (ps[r1 := r0]) rs' r0"
      using repOf_step [OF ok', of r1] r1 ne by simp
    also have "\<dots> = r0" using r0 ne by (simp add: repOf_root)
    finally show ?thesis using True root by (simp add: repOf_root)
  next
    case False
    then show ?thesis using root by (simp add: repOf_root)
  qed
next
  case (step i)
  then have "i \<noteq> r1" using r1 by auto
  then have nth: "ps[r1 := r0] ! i = ps ! i" by simp
  have "repOf (ps[r1 := r0]) rs' i = repOf (ps[r1 := r0]) rs' (ps ! i)"
    using repOf_step [OF ok', of i] step.hyps nth by simp
  then show ?case using step ok by (simp add: repOf_step)
qed

lemma rep_self_root:
  assumes "dsOK ds" "i < length (parents ds)"
  shows "parents ds ! (rep ds i) = rep ds i" "rep ds i < length (parents ds)"
    "rep ds (rep ds i) = rep ds i"
  using assms by (simp_all add: dsOK_def rep_def repOf_is_root repOf_bound repOf_idem)

lemma bind_Some [simp]: "bind (Some (Inr x)) f = f x"
  by (simp add: bind_def)

lemma mergeSets_spec:
  assumes ok: "dsOK ds"
    and a: "0 \<le> a" "a < int (length (parents ds))"
    and b: "0 \<le> b" "b < int (length (parents ds))"
  shows "\<exists>ch ds'. mergeSets ds a b = Some (Inr (ch, ds')) \<and> dsOK ds'
           \<and> length (parents ds') = length (parents ds)
           \<and> (\<exists>w. (w = rep ds (nat a) \<or> w = rep ds (nat b))
                \<and> (\<forall>j < length (parents ds). rep ds' j =
                      (if rep ds j = rep ds (nat a) \<or> rep ds j = rep ds (nat b) then w
                       else rep ds j)))"
proof -
  let ?n = "length (parents ds)"
  from getRepr_spec [OF ok a] obtain ds1 where
    g1: "getRepr ds a = Some (Inr (rep ds (nat a), ds1))" and ok1: "dsOK ds1"
    and s1: "sameReps ds ds1" by blast
  have n1: "length (parents ds1) = ?n" using s1 by (simp add: sameReps_def)
  from getRepr_spec [OF ok1 b(1)] b(2) n1 obtain ds2 where
    g2: "getRepr ds1 b = Some (Inr (rep ds1 (nat b), ds2))" and ok2: "dsOK ds2"
    and s2: "sameReps ds1 ds2" by auto
  have n2: "length (parents ds2) = ?n" using s2 n1 by (simp add: sameReps_def)
  have reps2: "rep ds2 j = rep ds j" if "j < ?n" for j
    using s1 s2 that n1 by (simp add: sameReps_def)
  define repr0 where "repr0 = rep ds (nat a)"
  define repr1 where "repr1 = rep ds (nat b)"
  have na: "nat a < ?n" and nb: "nat b < ?n" using a b by simp_all
  have r1eq: "rep ds1 (nat b) = repr1" using s1 nb by (simp add: sameReps_def repr1_def)
  have lt0: "repr0 < ?n" and lt1: "repr1 < ?n"
    using rep_self_root(2) [OF ok] na nb by (simp_all add: repr0_def repr1_def)
  have root0: "parents ds2 ! repr0 = repr0"
  proof -
    have "rep ds2 repr0 = repr0"
      using reps2 [OF lt0] rep_self_root(3) [OF ok na] by (simp add: repr0_def)
    then show ?thesis using rep_self_root(1) [OF ok2, of repr0] lt0 n2 by simp
  qed
  have root1: "parents ds2 ! repr1 = repr1"
  proof -
    have "rep ds2 repr1 = repr1"
      using reps2 [OF lt1] rep_self_root(3) [OF ok nb] by (simp add: repr1_def)
    then show ?thesis using rep_self_root(1) [OF ok2, of repr1] lt1 n2 by simp
  qed
  show ?thesis
  proof (cases "repr0 = repr1")
    case True
    have "mergeSets ds a b = Some (Inr (False, ds2))"
      using True by (simp add: mergeSets_def g1 g2 r1eq repr0_def [symmetric])
    moreover have "\<forall>j < ?n. rep ds2 j =
        (if rep ds j = rep ds (nat a) \<or> rep ds j = rep ds (nat b) then rep ds (nat a) else rep ds j)"
      using reps2 True by (auto simp: repr0_def repr1_def)
    ultimately show ?thesis using ok2 n2 by blast
  next
    case False
    define ps where "ps = parents ds2"
    define rs where "rs = ranks ds2"
    define cmp where "cmp = int (rs ! repr0) - int (rs ! repr1)"
    define rs' where "rs' = (if cmp = 0 then rs[repr0 := rs ! repr0 + 1] else rs)"
    define r0 where "r0 = (if cmp < 0 then repr1 else repr0)"
    define r1 where "r1 = (if cmp < 0 then repr0 else repr1)"
    define ds' where "ds' = ds2\<lparr> parents := ps[r1 := r0], ranks := rs',
        sizes := ((sizes ds2)[r0 := sizes ds2 ! r0 + sizes ds2 ! r1])[r1 := 0],
        numSets := numSets ds2 - 1 \<rparr>"
    have m: "mergeSets ds a b = Some (Inr (True, ds'))"
      using False
      by (simp add: mergeSets_def g1 g2 r1eq repr0_def [symmetric] Let_def ds'_def ps_def rs_def
          cmp_def rs'_def r0_def r1_def)
    have uf: "ufOK ps rs" and lens: "length ps = ?n" "length rs = ?n"
      using ok2 n2 by (simp_all add: dsOK_def ps_def rs_def ufOK_def)
    have r0p: "r0 < length ps" "ps ! r0 = r0" and r1p: "r1 < length ps" "ps ! r1 = r1"
      and ne: "r0 \<noteq> r1"
      using lt0 lt1 root0 root1 False lens by (auto simp: r0_def r1_def ps_def)
    have len': "length rs' = length rs" by (simp add: rs'_def)
    have keep: "\<forall>i < length ps. i \<noteq> r0 \<longrightarrow> rs' ! i = rs ! i"
      by (auto simp: rs'_def r0_def)
    have up: "rs ! r0 \<le> rs' ! r0" using lens lt0 by (auto simp: rs'_def r0_def)
    have lt: "rs ! r1 < rs' ! r0"
      using lens lt0 lt1 by (auto simp: rs'_def r0_def r1_def cmp_def)
    have uf': "ufOK (ps[r1 := r0]) rs'"
      using ufOK_link [OF uf r0p r1p ne len' keep up lt] .
    have ok': "dsOK ds'"
      using uf' ok2 by (simp add: dsOK_def ds'_def ps_def)
    have reps': "rep ds' j = (if rep ds j = r1 then r0 else rep ds j)" if "j < ?n" for j
    proof -
      have "j < length ps" using that lens by simp
      from repOf_link [OF uf r0p r1p ne uf' this]
      have "rep ds' j = (if rep ds2 j = r1 then r0 else rep ds2 j)"
        by (simp add: rep_def ds'_def ps_def rs_def)
      then show ?thesis using reps2 [OF that] by simp
    qed
    have sets: "(r0 = repr0 \<and> r1 = repr1) \<or> (r0 = repr1 \<and> r1 = repr0)"
      by (auto simp: r0_def r1_def)
    have "\<forall>j < ?n. rep ds' j =
        (if rep ds j = rep ds (nat a) \<or> rep ds j = rep ds (nat b) then r0 else rep ds j)"
      using reps' sets by (auto simp: repr0_def repr1_def)
    moreover have "r0 = rep ds (nat a) \<or> r0 = rep ds (nat b)"
      using sets by (auto simp: repr0_def repr1_def)
    moreover have "length (parents ds') = ?n" using lens by (simp add: ds'_def)
    ultimately show ?thesis using m ok' by blast
  qed
qed

lemma new_DisjointSet_spec:
  "new_DisjointSet (int n) = Inr \<lparr> parents = [0 ..< n], ranks = replicate n 0,
      sizes = replicate n 1, numSets = int n \<rparr>"
  by (simp add: new_DisjointSet_def)

lemma new_DisjointSet_ok:
  "dsOK \<lparr> parents = [0 ..< n], ranks = replicate n 0, sizes = replicate n 1, numSets = int n \<rparr>"
  by (simp add: dsOK_def ufOK_def)

lemma new_DisjointSet_rep:
  "i < n \<Longrightarrow> rep \<lparr> parents = [0 ..< n], ranks = replicate n 0, sizes = replicate n 1,
      numSets = int n \<rparr> i = i"
  by (simp add: rep_def repOf_root)

declare getRepr_loop.simps [code]

section \<open>Gear connectivity\<close>

text \<open>
  \<^verbatim>\<open>Board._connectGears\<close>. \<^verbatim>\<open>allGears\<close> is a \<^verbatim>\<open>Set\<close> of parts filled in row-major order, a
  list without duplicates; \<open>labelPart\<close> is the body of the inner loop of the labelling scan
  for one part, \<open>labelRow\<close> the inner loop (with the column counter and \<^verbatim>\<open>westPart\<close>) and
  \<open>labelRows\<close> the outer loop (with the row counter). \<open>groupGears\<close> is the final loop:
  \<^verbatim>\<open>sets\<close> is a \<^verbatim>\<open>Map\<close> from representative label to a \<^verbatim>\<open>Set\<close> of parts. The source
  stores in \<^verbatim>\<open>part.connected\<close> a reference to that \<^verbatim>\<open>Set\<close>, which later iterations extend; the
  model records for each part the key of its set and assigns the final contents of the
  set once the loop is over.
\<close>

definition isGear :: "Sim \<Rightarrow> nat \<Rightarrow> bool" where
  "isGear w p = isGearBase (ptype (heap w p))"

definition allGears :: "Sim \<Rightarrow> nat list" where
  "allGears w = fold Set_add (filter (isGear w) (concat (grid w))) []"

definition labelOf :: "Sim \<Rightarrow> nat option \<Rightarrow> int" where
  "labelOf w x =
     (case x of None \<Rightarrow> -1 | Some p \<Rightarrow> if isGear w p then connectionLabel (heap w p) else -1)"

definition setLabel :: "nat \<Rightarrow> int \<Rightarrow> Sim \<Rightarrow> Sim" where
  "setLabel part l w = updPart part (\<lambda>p. p\<lparr> connectionLabel := l \<rparr>) w"

definition labelPart ::
  "nat option \<Rightarrow> nat option \<Rightarrow> nat \<Rightarrow> int \<times> DisjointSet \<times> Sim
     \<Rightarrow> (Error + int \<times> DisjointSet \<times> Sim) option" where
  "labelPart northPart westPart part st =
     (case st of (label, equivalence, w) \<Rightarrow>
        if isGear w part then
          let northLabel = labelOf w northPart;
              westLabel = labelOf w westPart
          in
          if northLabel \<ge> 0 \<and> westLabel \<ge> 0 then
            if northLabel = westLabel
            then Some (Inr (label, equivalence, setLabel part northLabel w))
            else
              let min' = min northLabel westLabel;
                  max' = max northLabel westLabel
              in bind (mergeSets equivalence min' max') (\<lambda>(merged, equivalence').
                   Some (Inr (label, equivalence', setLabel part min' w)))
          else if northLabel \<ge> 0
          then Some (Inr (label, equivalence, setLabel part northLabel w))
          else if westLabel \<ge> 0
          then Some (Inr (label, equivalence, setLabel part westLabel w))
          else Some (Inr (label + 1, equivalence, setLabel part label w))
        else Some (Inr st))"

fun labelRow ::
  "nat \<Rightarrow> nat \<Rightarrow> nat option \<Rightarrow> nat list \<Rightarrow> int \<times> DisjointSet \<times> Sim
     \<Rightarrow> (Error + int \<times> DisjointSet \<times> Sim) option" where
  "labelRow r c westPart [] st = Some (Inr st)"
| "labelRow r c westPart (part # rest) st =
     (let northPart = (if r > 0 then getPart (snd (snd st)) (int c) (int r - 1) else None)
      in bind (labelPart northPart westPart part st)
           (\<lambda>st'. labelRow r (c + 1) (Some part) rest st'))"

fun labelRows ::
  "nat \<Rightarrow> nat list list \<Rightarrow> int \<times> DisjointSet \<times> Sim
     \<Rightarrow> (Error + int \<times> DisjointSet \<times> Sim) option" where
  "labelRows r [] st = Some (Inr st)"
| "labelRows r (row' # rows) st =
     bind (labelRow r 0 None row' st) (\<lambda>st'. labelRows (r + 1) rows st')"

fun groupGears ::
  "nat list \<Rightarrow> Sim \<Rightarrow> DisjointSet \<times> (nat \<times> nat list) list \<times> (nat \<times> nat) list
     \<Rightarrow> (Error + DisjointSet \<times> (nat \<times> nat list) list \<times> (nat \<times> nat) list) option" where
  "groupGears [] w st = Some (Inr st)"
| "groupGears (part # rest) w st =
     (case st of (equivalence, sets, refs) \<Rightarrow>
        bind (getRepr equivalence (connectionLabel (heap w part))) (\<lambda>(label, equivalence').
          let sets1 = (if \<not> Map_has sets label then AList.update label [] sets else sets);
              members = (case map_of sets1 label of None \<Rightarrow> [] | Some s \<Rightarrow> s)
          in groupGears rest w
               (equivalence', AList.update label (Set_add part members) sets1,
                refs @ [(part, label)])))"

definition connectGears :: "Sim \<Rightarrow> (Error + Sim) option" where
  "connectGears w =
     (let gears = allGears w in
      case new_DisjointSet (int (length gears)) of
        Inl e \<Rightarrow> Some (Inl e)
      | Inr equivalence \<Rightarrow>
          bind (labelRows 0 (grid w) (0, equivalence, w)) (\<lambda>(label, equivalence1, w1).
          bind (groupGears gears w1 (equivalence1, [], [])) (\<lambda>(equivalence2, sets, refs).
            Some (Inr (fold (\<lambda>(part, key) w'.
                         updPart part (\<lambda>p. p\<lparr> connected_set := map_of sets key \<rparr>) w')
                       refs w1)))))"

text \<open>
  \<open>gridOK\<close>: the grid has \<^verbatim>\<open>_rowCount\<close> rows of \<^verbatim>\<open>_columnCount\<close> parts. \<open>gearLink\<close> relates the
  gear-class part of a cell to the gear-class part of the cell to its west or to its north,
  the two neighbours the scan looks at; \<open>joined\<close> is the equivalence this generates.
\<close>

definition gridOK :: "Sim \<Rightarrow> bool" where
  "gridOK w =
     (length (grid w) = rowCount w \<and> (\<forall>row' \<in> set (grid w). length row' = columnCount w))"

definition gearLink :: "Sim \<Rightarrow> (nat \<times> nat) set" where
  "gearLink w =
     {(p, q). isGear w p \<and> isGear w q
        \<and> (\<exists>r c. r < rowCount w \<and> c < columnCount w \<and> p = grid w ! r ! c
              \<and> ((0 < c \<and> q = grid w ! r ! (c - 1)) \<or> (0 < r \<and> q = grid w ! (r - 1) ! c)))}"

definition joined :: "Sim \<Rightarrow> (nat \<times> nat) set" where
  "joined w = (gearLink w \<union> (gearLink w)\<inverse>)\<^sup>*"

subsection \<open>The invariant of the labelling scan\<close>

text \<open>
  \<open>labelInv w D (L, eq, w')\<close> holds when the parts of the list \<open>D\<close> have been scanned:
  the board is unchanged except for labels, the next fresh label \<open>L\<close> is at most the number
  of gears scanned, every scanned gear has a label below \<open>L\<close>, two scanned gears whose labels
  have the same representative are joined, a scanned gear and its west or north gear
  neighbour have labels with the same representative, and labels from \<open>L\<close> on are still
  singletons whereas the classes of labels below \<open>L\<close> stay below \<open>L\<close>.
\<close>

definition nGears :: "Sim \<Rightarrow> nat" where
  "nGears w = length (filter (isGear w) (concat (grid w)))"

definition lab :: "Sim \<Rightarrow> nat \<Rightarrow> int" where
  "lab w p = connectionLabel (heap w p)"

definition cls :: "DisjointSet \<Rightarrow> Sim \<Rightarrow> nat \<Rightarrow> nat" where
  "cls eq w p = rep eq (nat (lab w p))"

definition sameBoard :: "Sim \<Rightarrow> Sim \<Rightarrow> bool" where
  "sameBoard w w' =
     (grid w' = grid w \<and> rowCount w' = rowCount w \<and> columnCount w' = columnCount w
      \<and> (\<forall>p. ptype (heap w' p) = ptype (heap w p)))"

definition labelInv :: "Sim \<Rightarrow> nat list \<Rightarrow> int \<times> DisjointSet \<times> Sim \<Rightarrow> bool" where
  "labelInv w D st =
     (case st of (L, eq, w') \<Rightarrow>
        sameBoard w w'
        \<and> dsOK eq \<and> length (parents eq) = nGears w
        \<and> 0 \<le> L \<and> L \<le> int (length (filter (isGear w) D))
        \<and> (\<forall>p \<in> set D. isGear w p \<longrightarrow> 0 \<le> lab w' p \<and> lab w' p < L)
        \<and> (\<forall>p \<in> set D. \<forall>q \<in> set D.
              isGear w p \<and> isGear w q \<and> cls eq w' p = cls eq w' q \<longrightarrow> (p, q) \<in> joined w)
        \<and> (\<forall>p q. (p, q) \<in> gearLink w \<and> p \<in> set D \<longrightarrow> q \<in> set D \<and> cls eq w' p = cls eq w' q)
        \<and> (\<forall>l < nGears w. (int l < L \<longrightarrow> int (rep eq l) < L) \<and> (L \<le> int l \<longrightarrow> rep eq l = l)))"

lemma joined_refl [simp]: "(p, p) \<in> joined w"
  by (simp add: joined_def)

lemma joined_sym: "(p, q) \<in> joined w \<Longrightarrow> (q, p) \<in> joined w"
proof -
  have "sym (gearLink w \<union> (gearLink w)\<inverse>)" by (auto simp: sym_def)
  then have "sym (joined w)" unfolding joined_def by (rule sym_rtrancl)
  then show "(p, q) \<in> joined w \<Longrightarrow> (q, p) \<in> joined w" by (auto dest: symD)
qed

lemma joined_trans: "(p, q) \<in> joined w \<Longrightarrow> (q, r) \<in> joined w \<Longrightarrow> (p, r) \<in> joined w"
  unfolding joined_def by (rule rtrancl_trans)

lemma gearLink_joined: "(p, q) \<in> gearLink w \<Longrightarrow> (p, q) \<in> joined w"
  unfolding joined_def by blast

lemma gearLink_isGear: "(p, q) \<in> gearLink w \<Longrightarrow> isGear w p \<and> isGear w q"
  by (simp add: gearLink_def)

lemma setLabel_simps [simp]:
  "lab (setLabel x l w) p = (if p = x then l else lab w p)"
  "sameBoard w0 (setLabel x l w) = sameBoard w0 w"
  by (auto simp: setLabel_def updPart_def lab_def sameBoard_def)

lemma labelInv_join:
  assumes inv: "labelInv w D (L, eq, w')"
    and pre: "length (filter (isGear w) (D @ [x])) \<le> nGears w"
    and x: "x \<notin> set D" "isGear w x"
    and nb: "Nb \<subseteq> set D" "\<forall>q \<in> Nb. (x, q) \<in> gearLink w" "q0 \<in> Nb"
    and link: "\<forall>q. (x, q) \<in> gearLink w \<longrightarrow> q \<in> Nb"
    and eq': "dsOK eq'" "length (parents eq') = nGears w"
    and w0: "w0 \<in> cls eq w' ` Nb"
    and reps: "\<forall>j < nGears w. rep eq' j = (if rep eq j \<in> cls eq w' ` Nb then w0 else rep eq j)"
  shows "labelInv w (D @ [x]) (L, eq', setLabel x (lab w' q0) w')"
proof -
  let ?M = "cls eq w' ` Nb"
  let ?w'' = "setLabel x (lab w' q0) w'"
  have board: "sameBoard w w'" and L0: "0 \<le> L"
    and LD: "L \<le> int (length (filter (isGear w) D))"
    and labs: "\<And>p. p \<in> set D \<Longrightarrow> isGear w p \<Longrightarrow> 0 \<le> lab w' p \<and> lab w' p < L"
    and sound: "\<And>p q. p \<in> set D \<Longrightarrow> q \<in> set D \<Longrightarrow> isGear w p \<Longrightarrow> isGear w q \<Longrightarrow>
        cls eq w' p = cls eq w' q \<Longrightarrow> (p, q) \<in> joined w"
    and compl: "\<And>p q. (p, q) \<in> gearLink w \<Longrightarrow> p \<in> set D \<Longrightarrow> q \<in> set D \<and> cls eq w' p = cls eq w' q"
    and fresh: "\<And>l. l < nGears w \<Longrightarrow> (int l < L \<longrightarrow> int (rep eq l) < L) \<and> (L \<le> int l \<longrightarrow> rep eq l = l)"
    using inv by (auto simp: labelInv_def)
  have LN: "L < int (nGears w)" using LD pre x by simp
  have nbg: "\<And>q. q \<in> Nb \<Longrightarrow> q \<in> set D \<and> isGear w q"
    using nb gearLink_isGear by blast
  have inN: "nat (lab w' p) < nGears w" and inL: "int (nat (lab w' p)) < L"
    if "p \<in> set D" "isGear w p" for p
    using labs [OF that] LN by linarith+
  have M_lt: "int m < L" if "m \<in> ?M" for m
  proof -
    from that obtain q where q: "q \<in> Nb" "m = cls eq w' q" by blast
    then show ?thesis using fresh [OF inN, of q] inL [of q] nbg [of q] by (simp add: cls_def)
  qed
  have cls_old: "cls eq' ?w'' p = (if cls eq w' p \<in> ?M then w0 else cls eq w' p)"
    if "p \<in> set D" "isGear w p" for p
    using that x(1) reps inN [OF that] by (auto simp: cls_def)
  have cls_x: "cls eq' ?w'' x = w0"
  proof -
    have "cls eq' ?w'' x = rep eq' (nat (lab w' q0))" by (simp add: cls_def)
    also have "\<dots> = (if cls eq w' q0 \<in> ?M then w0 else cls eq w' q0)"
      using reps inN [of q0] nbg [OF nb(3)] by (simp add: cls_def)
    finally show ?thesis using nb(3) by simp
  qed
  have near: "(p, x) \<in> joined w" if "p \<in> set D" "isGear w p" "cls eq w' p \<in> ?M" for p
  proof -
    from that(3) obtain q where q: "q \<in> Nb" "cls eq w' p = cls eq w' q" by blast
    have "(p, q) \<in> joined w" using sound [OF that(1) _ that(2) _ q(2)] nbg [OF q(1)] by simp
    moreover have "(q, x) \<in> joined w"
      using nb(2) q(1) by (auto intro: joined_sym gearLink_joined)
    ultimately show ?thesis by (rule joined_trans)
  qed
  have w0M: "w0 \<in> ?M" by (rule w0)
  have s: "(p, q) \<in> joined w"
    if "p \<in> set (D @ [x])" "q \<in> set (D @ [x])" "isGear w p" "isGear w q"
      "cls eq' ?w'' p = cls eq' ?w'' q" for p q
  proof -
    have nearx: "(p, x) \<in> joined w" if "p \<in> set (D @ [x])" "isGear w p" "cls eq' ?w'' p = w0" for p
    proof (cases "p = x")
      case True
      then show ?thesis by simp
    next
      case False
      then have pD: "p \<in> set D" using that by simp
      have "cls eq w' p \<in> ?M"
        using cls_old [OF pD that(2)] that(3) w0M by (auto split: if_splits)
      then show ?thesis using near pD that(2) by blast
    qed
    show ?thesis
    proof (cases "cls eq' ?w'' p = w0")
      case True
      then have "(p, x) \<in> joined w" "(q, x) \<in> joined w"
        using nearx that by simp_all
      then show ?thesis by (blast intro: joined_trans joined_sym)
    next
      case False
      then have px: "p \<noteq> x" "q \<noteq> x" using cls_x that(5) by auto
      then have pD: "p \<in> set D" and qD: "q \<in> set D" using that by simp_all
      have "cls eq w' p \<notin> ?M" "cls eq w' q \<notin> ?M"
        using cls_old [OF pD that(3)] cls_old [OF qD that(4)] False that(5)
        by (auto split: if_splits)
      then have "cls eq w' p = cls eq w' q"
        using cls_old [OF pD that(3)] cls_old [OF qD that(4)] that(5) by simp
      then show ?thesis using sound pD qD that by blast
    qed
  qed
  have c: "q \<in> set (D @ [x]) \<and> cls eq' ?w'' p = cls eq' ?w'' q"
    if "(p, q) \<in> gearLink w" "p \<in> set (D @ [x])" for p q
  proof (cases "p = x")
    case True
    then have qN: "q \<in> Nb" using link that(1) by blast
    then have qD: "q \<in> set D" "isGear w q" using nbg by simp_all
    have "cls eq' ?w'' q = w0" using cls_old [OF qD] qN by simp
    then show ?thesis using True cls_x qD by simp
  next
    case False
    then have pD: "p \<in> set D" using that by simp
    from compl [OF that(1) pD] have qD: "q \<in> set D" and e: "cls eq w' p = cls eq w' q" by simp_all
    have g: "isGear w p" "isGear w q" using gearLink_isGear [OF that(1)] by simp_all
    show ?thesis using cls_old [OF pD g(1)] cls_old [OF qD g(2)] e qD by simp
  qed
  have f: "(int l < L \<longrightarrow> int (rep eq' l) < L) \<and> (L \<le> int l \<longrightarrow> rep eq' l = l)"
    if "l < nGears w" for l
  proof -
    have r: "rep eq' l = (if rep eq l \<in> ?M then w0 else rep eq l)" using reps that by simp
    show ?thesis
    proof (intro conjI impI)
      assume "int l < L"
      then show "int (rep eq' l) < L" using r fresh [OF that] M_lt [OF w0M] by simp
    next
      assume a: "L \<le> int l"
      then have "rep eq l = l" using fresh [OF that] by simp
      moreover have "l \<notin> ?M" using M_lt [of l] a by auto
      ultimately show "rep eq' l = l" using r by simp
    qed
  qed
  have l3: "0 \<le> lab ?w'' p \<and> lab ?w'' p < L" if "p \<in> set (D @ [x])" "isGear w p" for p
    using that labs [of p] labs [of q0] nbg [OF nb(3)] by (cases "p = x") simp_all
  have l2: "L \<le> int (length (filter (isGear w) (D @ [x])))" using LD by simp
  show ?thesis
    unfolding labelInv_def prod.case
    using board eq' L0 l2 l3 s c f by (simp only: setLabel_simps) blast
qed

lemma labelInv_fresh:
  assumes inv: "labelInv w D (L, eq, w')"
    and pre: "length (filter (isGear w) (D @ [x])) \<le> nGears w"
    and x: "x \<notin> set D" "isGear w x"
    and nolink: "\<forall>q. (x, q) \<notin> gearLink w"
  shows "labelInv w (D @ [x]) (L + 1, eq, setLabel x L w')"
proof -
  let ?w'' = "setLabel x L w'"
  have board: "sameBoard w w'" and L0: "0 \<le> L" and ok: "dsOK eq" "length (parents eq) = nGears w"
    and LD: "L \<le> int (length (filter (isGear w) D))"
    and labs: "\<And>p. p \<in> set D \<Longrightarrow> isGear w p \<Longrightarrow> 0 \<le> lab w' p \<and> lab w' p < L"
    and sound: "\<And>p q. p \<in> set D \<Longrightarrow> q \<in> set D \<Longrightarrow> isGear w p \<Longrightarrow> isGear w q \<Longrightarrow>
        cls eq w' p = cls eq w' q \<Longrightarrow> (p, q) \<in> joined w"
    and compl: "\<And>p q. (p, q) \<in> gearLink w \<Longrightarrow> p \<in> set D \<Longrightarrow> q \<in> set D \<and> cls eq w' p = cls eq w' q"
    and fresh: "\<And>l. l < nGears w \<Longrightarrow> (int l < L \<longrightarrow> int (rep eq l) < L) \<and> (L \<le> int l \<longrightarrow> rep eq l = l)"
    using inv by (auto simp: labelInv_def)
  have LN: "L < int (nGears w)" using LD pre x by simp
  then have LnN: "nat L < nGears w" using L0 by linarith
  have cls_old: "cls eq ?w'' p = cls eq w' p" if "p \<in> set D" for p
    using that x(1) by (auto simp: cls_def)
  have cls_lt: "int (cls eq w' p) < L" if "p \<in> set D" "isGear w p" for p
  proof -
    have "nat (lab w' p) < nGears w" "int (nat (lab w' p)) < L"
      using labs [OF that] LN by linarith+
    then show ?thesis using fresh [of "nat (lab w' p)"] by (simp add: cls_def)
  qed
  have cls_x: "cls eq ?w'' x = nat L"
    using fresh [OF LnN] L0 by (simp add: cls_def)
  have s: "(p, q) \<in> joined w"
    if "p \<in> set (D @ [x])" "q \<in> set (D @ [x])" "isGear w p" "isGear w q"
      "cls eq ?w'' p = cls eq ?w'' q" for p q
  proof (cases "p = x")
    case True
    show ?thesis
    proof (cases "q = x")
      case True
      then show ?thesis using \<open>p = x\<close> by simp
    next
      case False
      then have qD: "q \<in> set D" using that by simp
      have "int (cls eq w' q) < L" using cls_lt [OF qD that(4)] .
      moreover have "cls eq w' q = nat L" using that(5) True cls_x cls_old [OF qD] by simp
      ultimately show ?thesis using L0 by simp
    qed
  next
    case False
    then have pD: "p \<in> set D" using that by simp
    show ?thesis
    proof (cases "q = x")
      case True
      have "int (cls eq w' p) < L" using cls_lt [OF pD that(3)] .
      moreover have "cls eq w' p = nat L" using that(5) True cls_x cls_old [OF pD] by simp
      ultimately show ?thesis using L0 by simp
    next
      case False
      then have qD: "q \<in> set D" using that by simp
      show ?thesis using sound [OF pD qD that(3,4)] that(5) cls_old pD qD by simp
    qed
  qed
  have c: "q \<in> set (D @ [x]) \<and> cls eq ?w'' p = cls eq ?w'' q"
    if "(p, q) \<in> gearLink w" "p \<in> set (D @ [x])" for p q
  proof -
    have "p \<noteq> x" using nolink that(1) by blast
    then have pD: "p \<in> set D" using that by simp
    from compl [OF that(1) pD] show ?thesis using cls_old pD by simp
  qed
  have f: "(int l < L + 1 \<longrightarrow> int (rep eq l) < L + 1) \<and> (L + 1 \<le> int l \<longrightarrow> rep eq l = l)"
    if "l < nGears w" for l
    using fresh [OF that] by (cases "int l < L") auto
  have l3: "0 \<le> lab ?w'' p \<and> lab ?w'' p < L + 1" if "p \<in> set (D @ [x])" "isGear w p" for p
    using that labs [of p] L0 by (cases "p = x") auto
  have l2: "L + 1 \<le> int (length (filter (isGear w) (D @ [x])))" using LD x by simp
  have l0: "0 \<le> L + 1" using L0 by simp
  show ?thesis
    unfolding labelInv_def prod.case
    using board ok l0 l2 l3 s c f by (simp only: setLabel_simps) blast
qed

lemma labelInv_skip:
  assumes inv: "labelInv w D (L, eq, w')" and x: "\<not> isGear w x"
  shows "labelInv w (D @ [x]) (L, eq, w')"
proof -
  have board: "sameBoard w w'" and L0: "0 \<le> L" and ok: "dsOK eq" "length (parents eq) = nGears w"
    and LD: "L \<le> int (length (filter (isGear w) D))"
    and labs: "\<And>p. p \<in> set D \<Longrightarrow> isGear w p \<Longrightarrow> 0 \<le> lab w' p \<and> lab w' p < L"
    and sound: "\<And>p q. p \<in> set D \<Longrightarrow> q \<in> set D \<Longrightarrow> isGear w p \<Longrightarrow> isGear w q \<Longrightarrow>
        cls eq w' p = cls eq w' q \<Longrightarrow> (p, q) \<in> joined w"
    and compl: "\<And>p q. (p, q) \<in> gearLink w \<Longrightarrow> p \<in> set D \<Longrightarrow> q \<in> set D \<and> cls eq w' p = cls eq w' q"
    and fresh: "\<And>l. l < nGears w \<Longrightarrow> (int l < L \<longrightarrow> int (rep eq l) < L) \<and> (L \<le> int l \<longrightarrow> rep eq l = l)"
    using inv by (auto simp: labelInv_def)
  have inD: "p \<in> set D" if "p \<in> set (D @ [x])" "isGear w p" for p
    using that x by auto
  have l2: "L \<le> int (length (filter (isGear w) (D @ [x])))" using LD x by simp
  have l3: "0 \<le> lab w' p \<and> lab w' p < L" if "p \<in> set (D @ [x])" "isGear w p" for p
    using labs inD that by blast
  have s: "(p, q) \<in> joined w"
    if "p \<in> set (D @ [x])" "q \<in> set (D @ [x])" "isGear w p" "isGear w q"
      "cls eq w' p = cls eq w' q" for p q
    using sound inD that by blast
  have c: "q \<in> set (D @ [x]) \<and> cls eq w' p = cls eq w' q"
    if "(p, q) \<in> gearLink w" "p \<in> set (D @ [x])" for p q
  proof -
    have "p \<in> set D" using inD that gearLink_isGear by blast
    from compl [OF that(1) this] show ?thesis by simp
  qed
  show ?thesis
    unfolding labelInv_def prod.case
    using board ok L0 l2 l3 s c fresh by blast
qed

lemma labelPart_spec:
  assumes inv: "labelInv w D (L, eq, w')"
    and pre: "length (filter (isGear w) (D @ [x])) \<le> nGears w"
    and x: "x \<notin> set D"
    and north: "\<And>q. northPart = Some q \<Longrightarrow> q \<in> set D"
    and west: "\<And>q. westPart = Some q \<Longrightarrow> q \<in> set D"
    and link: "\<And>q. (x, q) \<in> gearLink w \<longleftrightarrow>
        isGear w x \<and> isGear w q \<and> (northPart = Some q \<or> westPart = Some q)"
  shows "\<exists>st'. labelPart northPart westPart x (L, eq, w') = Some (Inr st')
           \<and> labelInv w (D @ [x]) st'"
proof (cases "isGear w x")
  case False
  have board: "sameBoard w w'" using inv by (simp add: labelInv_def)
  then have "\<not> isGear w' x" using False by (simp add: isGear_def sameBoard_def)
  then have "labelPart northPart westPart x (L, eq, w') = Some (Inr (L, eq, w'))"
    by (simp add: labelPart_def)
  then show ?thesis using labelInv_skip [OF inv False] by simp
next
  case True
  have board: "sameBoard w w'" and L0: "0 \<le> L" and ok: "dsOK eq" "length (parents eq) = nGears w"
    and LD: "L \<le> int (length (filter (isGear w) D))"
    and labs: "\<And>p. p \<in> set D \<Longrightarrow> isGear w p \<Longrightarrow> 0 \<le> lab w' p \<and> lab w' p < L"
    using inv by (auto simp: labelInv_def)
  have g: "isGear w' p = isGear w p" for p
    using board by (simp add: isGear_def sameBoard_def)
  have LN: "L < int (nGears w)" using LD pre True by simp
  define ng where "ng = (\<exists>q. northPart = Some q \<and> isGear w q)"
  define wg where "wg = (\<exists>q. westPart = Some q \<and> isGear w q)"
  define nl where "nl = labelOf w' northPart"
  define wl where "wl = labelOf w' westPart"
  have nl: "(nl \<ge> 0) = ng" "\<And>q. northPart = Some q \<Longrightarrow> isGear w q \<Longrightarrow> nl = lab w' q"
    using labs north
    by (auto simp: nl_def ng_def labelOf_def g lab_def split: option.splits)
  have wl: "(wl \<ge> 0) = wg" "\<And>q. westPart = Some q \<Longrightarrow> isGear w q \<Longrightarrow> wl = lab w' q"
    using labs west
    by (auto simp: wl_def wg_def labelOf_def g lab_def split: option.splits)
  have unfold: "labelPart northPart westPart x (L, eq, w') =
      (if ng \<and> wg then
         if nl = wl then Some (Inr (L, eq, setLabel x nl w'))
         else bind (mergeSets eq (min nl wl) (max nl wl)) (\<lambda>(merged, equivalence').
                Some (Inr (L, equivalence', setLabel x (min nl wl) w')))
       else if ng then Some (Inr (L, eq, setLabel x nl w'))
       else if wg then Some (Inr (L, eq, setLabel x wl w'))
       else Some (Inr (L + 1, eq, setLabel x L w')))"
    using True nl(1) wl(1)
    by (simp add: labelPart_def g Let_def nl_def [symmetric] wl_def [symmetric])
  show ?thesis
  proof (cases ng)
    case ngT: True
    then obtain qn where qn: "northPart = Some qn" "isGear w qn" by (auto simp: ng_def)
    have qnD: "qn \<in> set D" using north qn by simp
    have nlq: "nl = lab w' qn" using nl(2) qn by simp
    show ?thesis
    proof (cases wg)
      case wgT: True
      then obtain qw where qw: "westPart = Some qw" "isGear w qw" by (auto simp: wg_def)
      have qwD: "qw \<in> set D" using west qw by simp
      have wlq: "wl = lab w' qw" using wl(2) qw by simp
      have nb: "{qn, qw} \<subseteq> set D" "\<forall>q \<in> {qn, qw}. (x, q) \<in> gearLink w"
        "\<forall>q. (x, q) \<in> gearLink w \<longrightarrow> q \<in> {qn, qw}"
        using qnD qwD link qn qw True by auto
      show ?thesis
      proof (cases "nl = wl")
        case eqT: True
        then have "cls eq w' qw = cls eq w' qn" using nlq wlq by (simp add: cls_def)
        then have reps: "\<forall>j < nGears w. rep eq j =
            (if rep eq j \<in> cls eq w' ` {qn, qw} then cls eq w' qn else rep eq j)"
          by auto
        have "labelInv w (D @ [x]) (L, eq, setLabel x (lab w' qn) w')"
          by (rule labelInv_join [OF inv pre x True nb(1,2) _ nb(3) ok _ reps]) simp_all
        then show ?thesis using ngT wgT eqT nlq by (simp add: unfold)
      next
        case neq: False
        define q0 where "q0 = (if nl \<le> wl then qn else qw)"
        have mn: "min nl wl = lab w' q0" using nlq wlq by (simp add: q0_def min_def)
        have rng: "0 \<le> nl" "nl < int (length (parents eq))" "0 \<le> wl" "wl < int (length (parents eq))"
          using labs [OF qnD qn(2)] labs [OF qwD qw(2)] nlq wlq LN ok(2) by simp_all
        then have rng': "0 \<le> min nl wl" "min nl wl < int (length (parents eq))"
          "0 \<le> max nl wl" "max nl wl < int (length (parents eq))"
          by simp_all
        from mergeSets_spec [OF ok(1) rng']
        obtain ch eq' w0 where m: "mergeSets eq (min nl wl) (max nl wl) = Some (Inr (ch, eq'))"
          and ok': "dsOK eq'" "length (parents eq') = length (parents eq)"
          and w0: "w0 = rep eq (nat (min nl wl)) \<or> w0 = rep eq (nat (max nl wl))"
          and reps0: "\<forall>j < length (parents eq). rep eq' j =
              (if rep eq j = rep eq (nat (min nl wl)) \<or> rep eq j = rep eq (nat (max nl wl)) then w0
               else rep eq j)"
          by blast
        have M: "{rep eq (nat (min nl wl)), rep eq (nat (max nl wl))} = cls eq w' ` {qn, qw}"
          using nlq wlq by (auto simp: cls_def min_def max_def)
        have w0M: "w0 \<in> cls eq w' ` {qn, qw}" using w0 M by blast
        have reps: "\<forall>j < nGears w. rep eq' j =
            (if rep eq j \<in> cls eq w' ` {qn, qw} then w0 else rep eq j)"
          using reps0 M ok(2) by (metis (no_types, lifting) insert_iff empty_iff)
        have q0N: "q0 \<in> {qn, qw}" by (simp add: q0_def)
        have ok'': "dsOK eq'" "length (parents eq') = nGears w" using ok' ok(2) by simp_all
        have "labelInv w (D @ [x]) (L, eq', setLabel x (lab w' q0) w')"
          by (rule labelInv_join [OF inv pre x True nb(1,2) q0N nb(3) ok'' w0M reps])
        then have "labelInv w (D @ [x]) (L, eq', setLabel x (min nl wl) w')"
          by (simp only: mn)
        then show ?thesis using ngT wgT neq by (simp add: unfold m)
      qed
    next
      case wgF: False
      have nb: "{qn} \<subseteq> set D" "\<forall>q \<in> {qn}. (x, q) \<in> gearLink w"
        "\<forall>q. (x, q) \<in> gearLink w \<longrightarrow> q \<in> {qn}"
        using qnD link qn True wgF by (auto simp: wg_def)
      have reps: "\<forall>j < nGears w. rep eq j =
          (if rep eq j \<in> cls eq w' ` {qn} then cls eq w' qn else rep eq j)"
        by auto
      have "labelInv w (D @ [x]) (L, eq, setLabel x (lab w' qn) w')"
        by (rule labelInv_join [OF inv pre x True nb(1,2) _ nb(3) ok _ reps]) simp_all
      then show ?thesis using ngT wgF nlq by (simp add: unfold)
    qed
  next
    case ngF: False
    show ?thesis
    proof (cases wg)
      case wgT: True
      then obtain qw where qw: "westPart = Some qw" "isGear w qw" by (auto simp: wg_def)
      have qwD: "qw \<in> set D" using west qw by simp
      have wlq: "wl = lab w' qw" using wl(2) qw by simp
      have nb: "{qw} \<subseteq> set D" "\<forall>q \<in> {qw}. (x, q) \<in> gearLink w"
        "\<forall>q. (x, q) \<in> gearLink w \<longrightarrow> q \<in> {qw}"
        using qwD link qw True ngF by (auto simp: ng_def)
      have reps: "\<forall>j < nGears w. rep eq j =
          (if rep eq j \<in> cls eq w' ` {qw} then cls eq w' qw else rep eq j)"
        by auto
      have "labelInv w (D @ [x]) (L, eq, setLabel x (lab w' qw) w')"
        by (rule labelInv_join [OF inv pre x True nb(1,2) _ nb(3) ok _ reps]) simp_all
      then show ?thesis using ngF wgT wlq by (simp add: unfold)
    next
      case wgF: False
      have "\<forall>q. (x, q) \<notin> gearLink w"
        using link ngF wgF by (auto simp: ng_def wg_def)
      from labelInv_fresh [OF inv pre x True this]
      show ?thesis using ngF wgF by (simp add: unfold)
    qed
  qed
qed

lemma grid_split:
  assumes "r < length g" "c < length (g ! r)"
  shows "concat g = (concat (take r g) @ take c (g ! r))
           @ g ! r ! c # (drop (Suc c) (g ! r) @ concat (drop (Suc r) g))"
proof -
  have "g = take r g @ g ! r # drop (Suc r) g" using assms(1) by (rule id_take_nth_drop)
  then have "concat g = concat (take r g) @ g ! r @ concat (drop (Suc r) g)"
    by (metis concat.simps(2) concat_append)
  moreover have "g ! r = take c (g ! r) @ g ! r ! c # drop (Suc c) (g ! r)"
    using assms(2) by (rule id_take_nth_drop)
  ultimately show ?thesis by (metis append.assoc append_Cons)
qed

lemma length_concat_take:
  assumes "\<forall>row' \<in> set g. length row' = C" "r \<le> length g"
  shows "length (concat (take r g)) = r * C"
  using assms
proof (induction g arbitrary: r)
  case Nil
  then show ?case by simp
next
  case (Cons a g)
  then show ?case by (cases r) simp_all
qed

lemma pos_unique:
  assumes ok: "gridOK w" and d: "distinct (concat (grid w))"
    and p: "r < rowCount w" "c < columnCount w" and p': "r' < rowCount w" "c' < columnCount w"
    and e: "grid w ! r ! c = grid w ! r' ! c'"
  shows "r = r' \<and> c = c'"
proof -
  let ?g = "grid w" and ?C = "columnCount w"
  have rows: "\<forall>row' \<in> set ?g. length row' = ?C" and len: "length ?g = rowCount w"
    using ok by (simp_all add: gridOK_def)
  have lr: "length (?g ! r) = ?C" "length (?g ! r') = ?C" using rows len p p' by simp_all
  let ?D = "\<lambda>r c. concat (take r ?g) @ take c (?g ! r)"
  let ?T = "\<lambda>r c. drop (Suc c) (?g ! r) @ concat (drop (Suc r) ?g)"
  have s1: "concat ?g = ?D r c @ ?g ! r ! c # ?T r c"
    using grid_split [of r ?g c] p len lr by simp
  have s2: "concat ?g = ?D r' c' @ ?g ! r ! c # ?T r' c'"
    using grid_split [of r' ?g c'] p' len lr e by simp
  have "?g ! r ! c \<notin> set (?D r c)" "?g ! r ! c \<notin> set (?T r c)"
    using d unfolding s1 by auto
  then have "?D r c = ?D r' c'"
    using s1 s2 by (metis append_Cons_eq_iff)
  then have "length (?D r c) = length (?D r' c')" by simp
  then have "r * ?C + c = r' * ?C + c'"
    using length_concat_take [OF rows, of r] length_concat_take [OF rows, of r'] p p' len lr
    by simp
  then have "(c + r * ?C) div ?C = (c' + r' * ?C) div ?C" "(c + r * ?C) mod ?C = (c' + r' * ?C) mod ?C"
    by (simp_all add: add.commute)
  then show ?thesis using p p' by simp
qed

lemma fold_Set_add_distinct:
  "distinct (ys @ xs) \<Longrightarrow> fold Set_add xs ys = ys @ xs"
  by (induction xs arbitrary: ys) (auto simp: Set_add_def)

lemma allGears_filter:
  "distinct (concat (grid w)) \<Longrightarrow> allGears w = filter (isGear w) (concat (grid w))"
  using fold_Set_add_distinct [of "[]" "filter (isGear w) (concat (grid w))"]
  by (simp add: allGears_def)

lemma getPart_inside:
  assumes "sameBoard w w'" "r < rowCount w" "c < columnCount w"
  shows "getPart w' (int c) (int r) = Some (grid w ! r ! c)"
  using assms by (simp add: getPart_def sameBoard_def)

lemma labelRow_spec:
  assumes ok: "gridOK w" and d: "distinct (concat (grid w))" and r: "r < rowCount w"
    and split: "grid w ! r = pre @ rest" and c: "c = length pre"
    and inv: "labelInv w (concat (take r (grid w)) @ pre) st"
    and west: "westPart = (if pre = [] then None else Some (last pre))"
  shows "\<exists>st'. labelRow r c westPart rest st = Some (Inr st')
           \<and> labelInv w (concat (take r (grid w)) @ grid w ! r) st'"
  using split c inv west
proof (induction rest arbitrary: pre c westPart st)
  case Nil
  then show ?case by simp
next
  case (Cons x rest)
  let ?g = "grid w" and ?C = "columnCount w"
  obtain L eq w' where st: "st = (L, eq, w')" by (cases st) auto
  have rows: "\<forall>row' \<in> set ?g. length row' = ?C" and len: "length ?g = rowCount w"
    using ok by (simp_all add: gridOK_def)
  have lr: "length (?g ! r) = ?C" using rows len r by simp
  have cC: "c < ?C" using Cons.prems(1,2) lr by simp
  have xr: "?g ! r ! c = x" using Cons.prems(1,2) by simp
  have tk: "take c (?g ! r) = pre" using Cons.prems(1,2) by simp
  let ?D = "concat (take r ?g) @ pre"
  have board: "sameBoard w w'" using Cons.prems(3) st by (simp add: labelInv_def)
  from grid_split [of r ?g c] r len lr cC xr tk
  obtain tl where G: "concat ?g = ?D @ x # tl" by auto
  have xD: "x \<notin> set ?D" using d unfolding G by auto
  have pre: "length (filter (isGear w) (?D @ [x])) \<le> nGears w"
    unfolding nGears_def G by simp
  define northPart where
    "northPart = (if r > 0 then getPart (snd (snd st)) (int c) (int r - 1) else None)"
  have np: "northPart = (if r > 0 then Some (?g ! (r - 1) ! c) else None)"
  proof (cases "r > 0")
    case True
    then have "int r - 1 = int (r - 1)" by simp
    then show ?thesis
      using True getPart_inside [OF board, of "r - 1" c] r cC
      by (simp add: northPart_def st)
  next
    case False
    then show ?thesis by (simp add: northPart_def)
  qed
  have wp: "westPart = (if c > 0 then Some (?g ! r ! (c - 1)) else None)"
  proof (cases "pre = []")
    case True
    then show ?thesis using Cons.prems by simp
  next
    case False
    then have "last pre = pre ! (c - 1)" using Cons.prems(2) by (simp add: last_conv_nth)
    also have "\<dots> = ?g ! r ! (c - 1)" using Cons.prems(1,2) False by (simp add: nth_append)
    finally show ?thesis using Cons.prems False by simp
  qed
  have northD: "q \<in> set ?D" if "northPart = Some q" for q
  proof -
    from that np have r0: "r > 0" and q: "q = ?g ! (r - 1) ! c" by (auto split: if_splits)
    have "r - 1 < length (take r ?g)" using r0 r len by simp
    moreover have "take r ?g ! (r - 1) = ?g ! (r - 1)" using r0 by simp
    moreover have "c < length (?g ! (r - 1))" using rows len r r0 cC by simp
    ultimately have "q \<in> set (concat (take r ?g))"
      unfolding q set_concat by (metis UN_I nth_mem)
    then show ?thesis by simp
  qed
  have westD: "q \<in> set ?D" if "westPart = Some q" for q
  proof -
    from that wp have c0: "c > 0" and q: "q = ?g ! r ! (c - 1)" by (auto split: if_splits)
    have "pre ! (c - 1) = q" using q Cons.prems(1,2) c0 by (simp add: nth_append)
    then show ?thesis using c0 Cons.prems(2) by (metis Un_iff diff_less nth_mem set_append zero_less_one)
  qed
  have link: "(x, q) \<in> gearLink w \<longleftrightarrow>
      isGear w x \<and> isGear w q \<and> (northPart = Some q \<or> westPart = Some q)" for q
  proof
    assume "(x, q) \<in> gearLink w"
    then obtain r' c' where g: "isGear w x" "isGear w q" and p': "r' < rowCount w" "c' < ?C"
      and e: "x = ?g ! r' ! c'"
      and nw: "(0 < c' \<and> q = ?g ! r' ! (c' - 1)) \<or> (0 < r' \<and> q = ?g ! (r' - 1) ! c')"
      by (auto simp: gearLink_def)
    have "r = r' \<and> c = c'" using pos_unique [OF ok d r cC p'] e xr by simp
    then show "isGear w x \<and> isGear w q \<and> (northPart = Some q \<or> westPart = Some q)"
      using g nw np wp by auto
  next
    assume a: "isGear w x \<and> isGear w q \<and> (northPart = Some q \<or> westPart = Some q)"
    then have "(0 < c \<and> q = ?g ! r ! (c - 1)) \<or> (0 < r \<and> q = ?g ! (r - 1) ! c)"
      using np wp by (auto split: if_splits)
    then show "(x, q) \<in> gearLink w"
      using a r cC xr unfolding gearLink_def by blast
  qed
  from labelPart_spec [OF Cons.prems(3) [unfolded st] pre xD northD westD link]
  obtain st1 where l: "labelPart northPart westPart x (L, eq, w') = Some (Inr st1)"
    and inv1: "labelInv w (?D @ [x]) st1" by blast
  have split': "?g ! r = (pre @ [x]) @ rest" using Cons.prems(1) by simp
  have inv1': "labelInv w (concat (take r ?g) @ (pre @ [x])) st1" using inv1 by simp
  from Cons.IH [OF split' _ inv1', of "c + 1" "Some x"] Cons.prems(2)
  obtain st' where "labelRow r (c + 1) (Some x) rest st1 = Some (Inr st')"
    "labelInv w (concat (take r ?g) @ ?g ! r) st'" by auto
  then show ?case
    using l by (simp add: northPart_def [symmetric] st [symmetric])
qed

lemma labelRows_spec:
  assumes ok: "gridOK w" and d: "distinct (concat (grid w))"
    and split: "grid w = upper @ rows" and r: "r = length upper"
    and inv: "labelInv w (concat upper) st"
  shows "\<exists>st'. labelRows r rows st = Some (Inr st') \<and> labelInv w (concat (grid w)) st'"
  using split r inv
proof (induction rows arbitrary: upper r st)
  case Nil
  then show ?case by simp
next
  case (Cons row' rows)
  have len: "length (grid w) = rowCount w" using ok by (simp add: gridOK_def)
  have rR: "r < rowCount w" using Cons.prems(1,2) len by simp
  have nth: "grid w ! r = row'" and tk: "take r (grid w) = upper"
    using Cons.prems(1,2) by simp_all
  have inv0: "labelInv w (concat (take r (grid w)) @ []) st" using Cons.prems(3) tk by simp
  from labelRow_spec [OF ok d rR _ _ inv0, of row' 0 None] nth
  obtain st1 where l: "labelRow r 0 None row' st = Some (Inr st1)"
    and inv1: "labelInv w (concat (take r (grid w)) @ grid w ! r) st1" by auto
  have inv1': "labelInv w (concat (upper @ [row'])) st1" using inv1 nth tk by simp
  have split': "grid w = (upper @ [row']) @ rows" using Cons.prems(1) by simp
  from Cons.IH [OF split' _ inv1', of "r + 1"] Cons.prems(2)
  obtain st' where "labelRows (r + 1) rows st1 = Some (Inr st')" "labelInv w (concat (grid w)) st'"
    by auto
  then show ?case using l by simp
qed

lemma sameReps_trans: "sameReps a b \<Longrightarrow> sameReps b c \<Longrightarrow> sameReps a c"
  by (simp add: sameReps_def)

lemma sameReps_refl [simp]: "sameReps a a"
  by (simp add: sameReps_def)

lemma groupGears_spec:
  fixes f :: "nat \<Rightarrow> nat"
  assumes f: "\<And>q. f q = rep eq1 (nat (lab w1 q))"
    and ok: "dsOK eq" and same: "sameReps eq1 eq"
    and d: "distinct (pre @ rest)"
    and rng: "\<forall>q \<in> set rest. 0 \<le> lab w1 q \<and> lab w1 q < int (length (parents eq1))"
    and sets: "\<forall>k. map_of sets k =
        (if k \<in> f ` set pre then Some (filter (\<lambda>q. f q = k) pre) else None)"
    and refs: "refs = map (\<lambda>q. (q, f q)) pre"
  shows "\<exists>eq' sets'. groupGears rest w1 (eq, sets, refs)
             = Some (Inr (eq', sets', map (\<lambda>q. (q, f q)) (pre @ rest)))
           \<and> (\<forall>k. map_of sets' k =
                 (if k \<in> f ` set (pre @ rest) then Some (filter (\<lambda>q. f q = k) (pre @ rest))
                  else None))"
  using ok same d rng sets refs
proof (induction rest arbitrary: pre eq sets refs)
  case Nil
  then show ?case by simp
next
  case (Cons x rest)
  have n: "length (parents eq) = length (parents eq1)"
    using Cons.prems(2) by (simp add: sameReps_def)
  have lx: "0 \<le> lab w1 x" "lab w1 x < int (length (parents eq))"
    using Cons.prems(4) n by simp_all
  from getRepr_spec [OF Cons.prems(1) lx]
  obtain eq' where g: "getRepr eq (lab w1 x) = Some (Inr (rep eq (nat (lab w1 x)), eq'))"
    and ok': "dsOK eq'" and same': "sameReps eq eq'" by blast
  have "nat (lab w1 x) < length (parents eq1)" using lx n by simp
  then have k: "rep eq (nat (lab w1 x)) = f x"
    using Cons.prems(2) by (simp add: sameReps_def f)
  define sets1 where
    "sets1 = (if \<not> Map_has sets (f x) then AList.update (f x) [] sets else sets)"
  define members where
    "members = (case map_of sets1 (f x) of None \<Rightarrow> [] | Some s \<Rightarrow> s)"
  define sets2 where "sets2 = AList.update (f x) (Set_add x members) sets1"
  have mem: "members = filter (\<lambda>q. f q = f x) pre"
  proof (cases "f x \<in> f ` set pre")
    case True
    then show ?thesis
      using Cons.prems(5) by (simp add: members_def sets1_def Map_has_def)
  next
    case False
    then have "\<forall>q \<in> set pre. f q \<noteq> f x" by (metis imageI)
    then have "filter (\<lambda>q. f q = f x) pre = []" by (simp add: filter_empty_conv)
    then show ?thesis
      using False Cons.prems(5)
      by (simp add: members_def sets1_def Map_has_def AList.update_conv')
  qed
  have xn: "x \<notin> set members" using Cons.prems(3) mem by simp
  have sets2: "\<forall>k. map_of sets2 k =
      (if k \<in> f ` set (pre @ [x]) then Some (filter (\<lambda>q. f q = k) (pre @ [x])) else None)"
  proof
    fix k
    show "map_of sets2 k =
      (if k \<in> f ` set (pre @ [x]) then Some (filter (\<lambda>q. f q = k) (pre @ [x])) else None)"
    proof (cases "k = f x")
      case True
      then show ?thesis
        using xn by (simp add: sets2_def AList.update_conv' Set_add_def mem)
    next
      case False
      then have "map_of sets2 k = map_of sets k"
        by (simp add: sets2_def sets1_def AList.update_conv')
      then show ?thesis using False Cons.prems(5) by auto
    qed
  qed
  have step: "groupGears (x # rest) w1 (eq, sets, refs)
      = groupGears rest w1 (eq', sets2, refs @ [(x, f x)])"
    by (simp add: g [unfolded lab_def] k [unfolded lab_def] Let_def sets1_def members_def sets2_def)
  have d': "distinct ((pre @ [x]) @ rest)" using Cons.prems(3) by simp
  have rng': "\<forall>q \<in> set rest. 0 \<le> lab w1 q \<and> lab w1 q < int (length (parents eq1))"
    using Cons.prems(4) by simp
  have refs': "refs @ [(x, f x)] = map (\<lambda>q. (q, f q)) (pre @ [x])"
    using Cons.prems(6) by simp
  from Cons.IH [OF ok' sameReps_trans [OF Cons.prems(2) same'] d' rng' sets2 refs']
  obtain eq2 sets' where
    r: "groupGears rest w1 (eq', sets2, refs @ [(x, f x)])
          = Some (Inr (eq2, sets', map (\<lambda>q. (q, f q)) ((pre @ [x]) @ rest)))"
    and m: "\<forall>k. map_of sets' k =
          (if k \<in> f ` set ((pre @ [x]) @ rest)
           then Some (filter (\<lambda>q. f q = k) ((pre @ [x]) @ rest)) else None)"
    by blast
  have e: "(pre @ [x]) @ rest = pre @ x # rest" by simp
  from r m show ?case unfolding step e by blast
qed

lemma assign_spec:
  "heap (fold (\<lambda>(part, key) w'. updPart part (\<lambda>p. p\<lparr> connected_set := map_of sets key \<rparr>) w')
           (map (\<lambda>q. (q, f q)) gs) w) p
     = (if p \<in> set gs then (heap w p)\<lparr> connected_set := map_of sets (f p) \<rparr> else heap w p)"
  by (induction gs arbitrary: w) (auto simp: updPart_def)

lemma assign_frame:
  "grid (fold (\<lambda>(part, key) w'. updPart part (\<lambda>p. p\<lparr> connected_set := map_of sets key \<rparr>) w')
           refs w) = grid w
   \<and> rowCount (fold (\<lambda>(part, key) w'. updPart part (\<lambda>p. p\<lparr> connected_set := map_of sets key \<rparr>) w')
           refs w) = rowCount w
   \<and> columnCount (fold (\<lambda>(part, key) w'. updPart part (\<lambda>p. p\<lparr> connected_set := map_of sets key \<rparr>) w')
           refs w) = columnCount w
   \<and> ptype (heap (fold (\<lambda>(part, key) w'. updPart part (\<lambda>p. p\<lparr> connected_set := map_of sets key \<rparr>) w')
           refs w) q) = ptype (heap w q)"
  by (induction refs arbitrary: w) (auto simp: updPart_def)

lemma gearLink_in_grid:
  assumes "gridOK w" "(p, q) \<in> gearLink w"
  shows "p \<in> set (concat (grid w))"
proof -
  from assms(2) obtain r c where "r < rowCount w" "c < columnCount w" "p = grid w ! r ! c"
    by (auto simp: gearLink_def)
  moreover have "length (grid w) = rowCount w" "\<forall>row' \<in> set (grid w). length row' = columnCount w"
    using assms(1) by (simp_all add: gridOK_def)
  ultimately show ?thesis
    unfolding set_concat by (metis UN_I nth_mem)
qed

lemma joined_same_class:
  assumes ok: "gridOK w" and inv: "labelInv w (concat (grid w)) (L, eq, w')"
    and j: "(p, q) \<in> joined w" and p: "p \<in> set (concat (grid w))" "isGear w p"
  shows "q \<in> set (concat (grid w)) \<and> isGear w q \<and> cls eq w' p = cls eq w' q"
proof -
  have compl: "\<And>p q. (p, q) \<in> gearLink w \<Longrightarrow> p \<in> set (concat (grid w)) \<Longrightarrow>
      q \<in> set (concat (grid w)) \<and> cls eq w' p = cls eq w' q"
    using inv by (auto simp: labelInv_def)
  from j show ?thesis
    unfolding joined_def
  proof (induction rule: rtrancl_induct)
    case base
    then show ?case using p by simp
  next
    case (step y z)
    show ?case
    proof (cases "(y, z) \<in> gearLink w")
      case True
      then show ?thesis using compl [OF True] step.IH gearLink_isGear [OF True] by simp
    next
      case False
      then have zy: "(z, y) \<in> gearLink w" using step.hyps(2) by simp
      have "z \<in> set (concat (grid w))" using gearLink_in_grid [OF ok zy] .
      then show ?thesis using compl [OF zy] step.IH gearLink_isGear [OF zy] by simp
    qed
  qed
qed

subsection \<open>Connected sets are the components of gear cells\<close>

text \<open>
  \<open>gearCells\<close> are the gear-class parts of the grid, and \<open>gearAdjacent\<close> relates the
  gear-class parts of two cells that share an edge (same row and neighbouring columns, or
  same column and neighbouring rows). Its reflexive transitive closure is reachability
  by a path of edge-adjacent gear-class cells.
\<close>

definition gearCells :: "Sim \<Rightarrow> nat set" where
  "gearCells w = {p \<in> set (concat (grid w)). isGear w p}"

definition gearAdjacent :: "Sim \<Rightarrow> (nat \<times> nat) set" where
  "gearAdjacent w =
     {(p, q). isGear w p \<and> isGear w q
        \<and> (\<exists>r c r' c'. r < rowCount w \<and> c < columnCount w \<and> p = grid w ! r ! c
              \<and> r' < rowCount w \<and> c' < columnCount w \<and> q = grid w ! r' ! c'
              \<and> ((r = r' \<and> (c = c' + 1 \<or> c' = c + 1)) \<or> (c = c' \<and> (r = r' + 1 \<or> r' = r + 1))))}"

lemma gearLink_adjacent: "gearLink w \<subseteq> gearAdjacent w"
proof
  fix x assume x: "x \<in> gearLink w"
  obtain p q where pq: "x = (p, q)" by (cases x)
  from x pq obtain r c where g: "isGear w p" "isGear w q"
    and rc: "r < rowCount w" "c < columnCount w" "p = grid w ! r ! c"
    and nb: "(0 < c \<and> q = grid w ! r ! (c - 1)) \<or> (0 < r \<and> q = grid w ! (r - 1) ! c)"
    by (auto simp: gearLink_def)
  from nb show "x \<in> gearAdjacent w"
  proof
    assume a: "0 < c \<and> q = grid w ! r ! (c - 1)"
    have "\<exists>r' c'. r' < rowCount w \<and> c' < columnCount w \<and> q = grid w ! r' ! c'
            \<and> ((r = r' \<and> (c = c' + 1 \<or> c' = c + 1)) \<or> (c = c' \<and> (r = r' + 1 \<or> r' = r + 1)))"
      using a rc by (intro exI [of _ r] exI [of _ "c - 1"]) simp
    then show ?thesis using g rc pq unfolding gearAdjacent_def by blast
  next
    assume a: "0 < r \<and> q = grid w ! (r - 1) ! c"
    have "\<exists>r' c'. r' < rowCount w \<and> c' < columnCount w \<and> q = grid w ! r' ! c'
            \<and> ((r = r' \<and> (c = c' + 1 \<or> c' = c + 1)) \<or> (c = c' \<and> (r = r' + 1 \<or> r' = r + 1)))"
      using a rc by (intro exI [of _ "r - 1"] exI [of _ c]) simp
    then show ?thesis using g rc pq unfolding gearAdjacent_def by blast
  qed
qed

lemma gearAdjacent_sym: "(p, q) \<in> gearAdjacent w \<Longrightarrow> (q, p) \<in> gearAdjacent w"
  unfolding gearAdjacent_def by blast

lemma gearAdjacent_link:
  assumes "(p, q) \<in> gearAdjacent w"
  shows "(p, q) \<in> gearLink w \<or> (q, p) \<in> gearLink w"
proof -
  from assms obtain r c r' c' where g: "isGear w p" "isGear w q"
    and rc: "r < rowCount w" "c < columnCount w" "p = grid w ! r ! c"
    and rc': "r' < rowCount w" "c' < columnCount w" "q = grid w ! r' ! c'"
    and nb: "(r = r' \<and> (c = c' + 1 \<or> c' = c + 1)) \<or> (c = c' \<and> (r = r' + 1 \<or> r' = r + 1))"
    by (auto simp: gearAdjacent_def)
  let ?west = "\<lambda>p q. \<exists>r c. r < rowCount w \<and> c < columnCount w \<and> p = grid w ! r ! c
      \<and> ((0 < c \<and> q = grid w ! r ! (c - 1)) \<or> (0 < r \<and> q = grid w ! (r - 1) ! c))"
  have link: "\<And>p q. isGear w p \<Longrightarrow> isGear w q \<Longrightarrow> ?west p q \<Longrightarrow> (p, q) \<in> gearLink w"
    unfolding gearLink_def by blast
  consider "r = r'" "c = c' + 1" | "r = r'" "c' = c + 1" | "c = c'" "r = r' + 1" | "c = c'" "r' = r + 1"
    using nb by blast
  then show ?thesis
  proof cases
    case 1
    have "?west p q" using 1 rc rc' by (intro exI [of _ r] exI [of _ c]) simp
    then show ?thesis using link g by blast
  next
    case 2
    have "?west q p" using 2 rc rc' by (intro exI [of _ r'] exI [of _ c']) simp
    then show ?thesis using link g by blast
  next
    case 3
    have "?west p q" using 3 rc rc' by (intro exI [of _ r] exI [of _ c]) simp
    then show ?thesis using link g by blast
  next
    case 4
    have "?west q p" using 4 rc rc' by (intro exI [of _ r'] exI [of _ c']) simp
    then show ?thesis using link g by blast
  qed
qed

lemma joined_adjacent: "joined w = (gearAdjacent w)\<^sup>*"
proof -
  have "gearLink w \<union> (gearLink w)\<inverse> \<subseteq> gearAdjacent w"
    using gearLink_adjacent [of w] gearAdjacent_sym [of _ _ w] by blast
  moreover have "gearAdjacent w \<subseteq> gearLink w \<union> (gearLink w)\<inverse>"
  proof
    fix x assume x: "x \<in> gearAdjacent w"
    obtain p q where "x = (p, q)" by (cases x)
    then show "x \<in> gearLink w \<union> (gearLink w)\<inverse>"
      using gearAdjacent_link [of p q w] x by auto
  qed
  ultimately have "gearLink w \<union> (gearLink w)\<inverse> = gearAdjacent w" by (rule equalityI)
  then show ?thesis by (simp add: joined_def)
qed

lemma labelInv_initial:
  "labelInv w [] (0, \<lparr> parents = [0 ..< nGears w], ranks = replicate (nGears w) 0,
      sizes = replicate (nGears w) 1, numSets = int (nGears w) \<rparr>, w)"
  using new_DisjointSet_ok [of "nGears w"] new_DisjointSet_rep [of _ "nGears w"]
  by (simp add: labelInv_def sameBoard_def)

lemma connectGears_spec:
  assumes ok: "gridOK w" and d: "distinct (concat (grid w))"
  shows "\<exists>w' (f :: nat \<Rightarrow> nat). connectGears w = Some (Inr w') \<and> sameBoard w w'
           \<and> (\<forall>p \<in> gearCells w. connected_set (heap w' p)
                  = Some (filter (\<lambda>q. f q = f p) (filter (isGear w) (concat (grid w)))))
           \<and> (\<forall>p \<in> gearCells w. \<forall>q. (f p = f q \<and> q \<in> gearCells w) = ((p, q) \<in> joined w))"
proof -
  let ?G = "concat (grid w)"
  let ?gs = "filter (isGear w) ?G"
  let ?eq0 = "\<lparr> parents = [0 ..< nGears w], ranks = replicate (nGears w) 0,
      sizes = replicate (nGears w) 1, numSets = int (nGears w) \<rparr>"
  have gears: "allGears w = ?gs" using d by (rule allGears_filter)
  have new: "new_DisjointSet (int (length ?gs)) = Inr ?eq0"
    by (simp add: new_DisjointSet_spec nGears_def)
  from labelRows_spec [OF ok d, of "[]" "grid w" 0 "(0, ?eq0, w)"] labelInv_initial [of w]
  obtain st' where scan: "labelRows 0 (grid w) (0, ?eq0, w) = Some (Inr st')"
    and inv': "labelInv w ?G st'" by auto
  obtain L eq1 w1 where st': "st' = (L, eq1, w1)" by (cases st')
  have inv: "labelInv w ?G (L, eq1, w1)" using inv' st' by simp
  have board: "sameBoard w w1" and ok1: "dsOK eq1" and n1: "length (parents eq1) = nGears w"
    and LD: "L \<le> int (length ?gs)"
    and labs: "\<And>p. p \<in> set ?G \<Longrightarrow> isGear w p \<Longrightarrow> 0 \<le> lab w1 p \<and> lab w1 p < L"
    and sound: "\<And>p q. p \<in> set ?G \<Longrightarrow> q \<in> set ?G \<Longrightarrow> isGear w p \<Longrightarrow> isGear w q \<Longrightarrow>
        cls eq1 w1 p = cls eq1 w1 q \<Longrightarrow> (p, q) \<in> joined w"
    using inv by (auto simp: labelInv_def)
  define f where "f q = rep eq1 (nat (lab w1 q))" for q
  have fcls: "\<And>q. f q = cls eq1 w1 q" by (simp add: f_def cls_def)
  have rng: "\<forall>q \<in> set ?gs. 0 \<le> lab w1 q \<and> lab w1 q < int (length (parents eq1))"
    using labs LD n1 by (fastforce simp: nGears_def)
  have dg: "distinct ([] @ ?gs)" using d by simp
  from groupGears_spec [of f eq1 w1 eq1 "[]" ?gs "[]" "[]", OF f_def ok1 sameReps_refl dg rng]
  obtain eq2 sets' where grp: "groupGears ?gs w1 (eq1, [], [])
        = Some (Inr (eq2, sets', map (\<lambda>q. (q, f q)) ?gs))"
    and sets: "\<And>k. map_of sets' k =
        (if k \<in> f ` set ?gs then Some (filter (\<lambda>q. f q = k) ?gs) else None)"
    by auto
  define w' where "w' = fold (\<lambda>(part, key) w'.
      updPart part (\<lambda>p. p\<lparr> connected_set := map_of sets' key \<rparr>) w') (map (\<lambda>q. (q, f q)) ?gs) w1"
  have run: "connectGears w = Some (Inr w')"
    by (simp add: connectGears_def Let_def gears new scan [simplified] st' grp w'_def)
  have board': "sameBoard w w'"
    using board assign_frame [of sets' "map (\<lambda>q. (q, f q)) ?gs" w1]
    by (simp add: sameBoard_def w'_def)
  have conn: "connected_set (heap w' p) = Some (filter (\<lambda>q. f q = f p) ?gs)"
    if "p \<in> gearCells w" for p
  proof -
    have p: "p \<in> set ?gs" using that by (simp add: gearCells_def)
    have "connected_set (heap w' p) = map_of sets' (f p)"
      unfolding w'_def assign_spec using p by simp
    also have "\<dots> = Some (filter (\<lambda>q. f q = f p) ?gs)"
      unfolding sets using p by (simp only: imageI if_True)
    finally show ?thesis .
  qed
  have iff: "(f p = f q \<and> q \<in> gearCells w) = ((p, q) \<in> joined w)" if "p \<in> gearCells w" for p q
  proof
    assume "f p = f q \<and> q \<in> gearCells w"
    then show "(p, q) \<in> joined w" using that sound [of p q] by (simp add: gearCells_def fcls)
  next
    assume "(p, q) \<in> joined w"
    from joined_same_class [OF ok inv this] that
    show "f p = f q \<and> q \<in> gearCells w" by (simp add: gearCells_def fcls)
  qed
  have "connectGears w = Some (Inr w') \<and> sameBoard w w'
           \<and> (\<forall>p \<in> gearCells w. connected_set (heap w' p)
                  = Some (filter (\<lambda>q. f q = f p) (filter (isGear w) (concat (grid w)))))
           \<and> (\<forall>p \<in> gearCells w. \<forall>q. (f p = f q \<and> q \<in> gearCells w) = ((p, q) \<in> joined w))"
    using run board' conn iff by simp
  then show ?thesis by blast
qed

text \<open>
  Claim C1. On a board whose grid has \<^verbatim>\<open>_rowCount\<close> rows of \<^verbatim>\<open>_columnCount\<close> parts, no part
  object sitting in two cells, \<^verbatim>\<open>_connectGears\<close> returns without throwing, and afterwards
  the \<^verbatim>\<open>connected\<close> set of every gear-class part of the grid contains that part and consists
  of exactly the gear-class parts reachable from it by a path of edge-adjacent gear-class
  cells; two gear-class parts have the same \<^verbatim>\<open>connected\<close> set if and only if they are
  joined by such a path.
\<close>

theorem C1_connected_sets_are_gear_components:
  assumes "gridOK w" and "distinct (concat (grid w))"
  shows "\<exists>w'. connectGears w = Some (Inr w') \<and> sameBoard w w'
           \<and> (\<forall>p \<in> gearCells w. \<exists>S. connected_set (heap w' p) = Some S \<and> p \<in> set S
                  \<and> set S = {q \<in> gearCells w. (p, q) \<in> (gearAdjacent w)\<^sup>*})
           \<and> (\<forall>p \<in> gearCells w. \<forall>q \<in> gearCells w.
                  (connected_set (heap w' p) = connected_set (heap w' q))
                    = ((p, q) \<in> (gearAdjacent w)\<^sup>*))"
proof -
  let ?gs = "filter (isGear w) (concat (grid w))"
  from connectGears_spec [OF assms]
  obtain w' and f :: "nat \<Rightarrow> nat" where run: "connectGears w = Some (Inr w')"
    and board: "sameBoard w w'"
    and conn: "\<And>p. p \<in> gearCells w \<Longrightarrow>
        connected_set (heap w' p) = Some (filter (\<lambda>q. f q = f p) ?gs)"
    and iff: "\<And>p q. p \<in> gearCells w \<Longrightarrow>
        (f p = f q \<and> q \<in> gearCells w) = ((p, q) \<in> (gearAdjacent w)\<^sup>*)"
    unfolding joined_adjacent by blast
  have gs: "set ?gs = gearCells w" by (auto simp: gearCells_def)
  have comp: "\<exists>S. connected_set (heap w' p) = Some S \<and> p \<in> set S
        \<and> set S = {q \<in> gearCells w. (p, q) \<in> (gearAdjacent w)\<^sup>*}" if p: "p \<in> gearCells w" for p
  proof -
    have "set (filter (\<lambda>q. f q = f p) ?gs) = {q \<in> gearCells w. f p = f q}"
      by (auto simp: gearCells_def)
    also have "\<dots> = {q \<in> gearCells w. (p, q) \<in> (gearAdjacent w)\<^sup>*}"
      using iff [OF p] by blast
    finally have "set (filter (\<lambda>q. f q = f p) ?gs) = {q \<in> gearCells w. (p, q) \<in> (gearAdjacent w)\<^sup>*}" .
    moreover have "p \<in> set (filter (\<lambda>q. f q = f p) ?gs)" using p by (simp add: gearCells_def)
    ultimately show ?thesis using conn [OF p] by blast
  qed
  have same: "(connected_set (heap w' p) = connected_set (heap w' q))
        = ((p, q) \<in> (gearAdjacent w)\<^sup>*)" if p: "p \<in> gearCells w" and q: "q \<in> gearCells w" for p q
  proof
    assume "connected_set (heap w' p) = connected_set (heap w' q)"
    then have "filter (\<lambda>x. f x = f p) ?gs = filter (\<lambda>x. f x = f q) ?gs"
      using conn [OF p] conn [OF q] by simp
    moreover have "p \<in> set (filter (\<lambda>x. f x = f p) ?gs)" using p by (simp add: gearCells_def)
    ultimately have "p \<in> set (filter (\<lambda>x. f x = f q) ?gs)" by simp
    then have "f p = f q" by simp
    then show "(p, q) \<in> (gearAdjacent w)\<^sup>*" using iff [OF p, of q] q by simp
  next
    assume "(p, q) \<in> (gearAdjacent w)\<^sup>*"
    then have "f p = f q" using iff [OF p, of q] by simp
    then show "connected_set (heap w' p) = connected_set (heap w' q)"
      using conn [OF p] conn [OF q] by simp
  qed
  show ?thesis using run board comp same by blast
qed

text \<open>
  A two by two board with a gearbit above a gear and a gearbit to the right of the gear.
\<close>

definition threeGears :: Sim where
  "threeGears = \<lparr> heap = (\<lambda>r. if r = 1 then newPart GEARLOC
                                else if r = 2 then newPart GEAR else newPart GEARBIT),
      nextPart = 4, subjects = [], grid = [[0, 1], [2, 3]], columnCount = 2, rowCount = 2,
      balls = [], boardChangeCounter = 0 \<rparr>"

theorem C1_witness:
  "gridOK threeGears \<and> distinct (concat (grid threeGears))
   \<and> 0 \<in> gearCells threeGears \<and> 3 \<in> gearCells threeGears
   \<and> (0, 3) \<in> (gearAdjacent threeGears)\<^sup>*
   \<and> (\<exists>w'. connectGears threeGears = Some (Inr w')
         \<and> connected_set (heap w' 0) = connected_set (heap w' 3))"
proof -
  have ok: "gridOK threeGears" by (simp add: gridOK_def threeGears_def)
  have d: "distinct (concat (grid threeGears))" by (simp add: threeGears_def)
  have g: "isGear threeGears 0" "isGear threeGears 2" "isGear threeGears 3"
    by (simp_all add: isGear_def threeGears_def newPart_def)
  have c: "0 \<in> gearCells threeGears" "3 \<in> gearCells threeGears"
    using g by (simp_all add: gearCells_def) (simp_all add: threeGears_def)
  have "\<exists>r c r' c'. r < rowCount threeGears \<and> c < columnCount threeGears
          \<and> 0 = grid threeGears ! r ! c
          \<and> r' < rowCount threeGears \<and> c' < columnCount threeGears \<and> 2 = grid threeGears ! r' ! c'
          \<and> ((r = r' \<and> (c = c' + 1 \<or> c' = c + 1)) \<or> (c = c' \<and> (r = r' + 1 \<or> r' = r + 1)))"
    by (intro exI [of _ 0] exI [of _ 1]) (simp add: threeGears_def)
  then have a: "(0, 2) \<in> gearAdjacent threeGears" using g by (simp add: gearAdjacent_def)
  have "\<exists>r c r' c'. r < rowCount threeGears \<and> c < columnCount threeGears
          \<and> 2 = grid threeGears ! r ! c
          \<and> r' < rowCount threeGears \<and> c' < columnCount threeGears \<and> 3 = grid threeGears ! r' ! c'
          \<and> ((r = r' \<and> (c = c' + 1 \<or> c' = c + 1)) \<or> (c = c' \<and> (r = r' + 1 \<or> r' = r + 1)))"
    by (rule exI [of _ 1], rule exI [of _ 0], rule exI [of _ 1], rule exI [of _ 1])
      (simp add: threeGears_def)
  then have b: "(2, 3) \<in> gearAdjacent threeGears" using g by (simp add: gearAdjacent_def)
  have j: "(0, 3) \<in> (gearAdjacent threeGears)\<^sup>*" using a b by simp
  from C1_connected_sets_are_gear_components [OF ok d]
  show ?thesis using ok d c j by blast
qed

section \<open>Fences\<close>

text \<open>
  The setters of \<^verbatim>\<open>Fence\<close>. \<^verbatim>\<open>set modulus(v)\<close> stores
  \<^verbatim>\<open>Math.min(Math.max(1, Math.round(v)), Fence.maxModulus)\<close> with \<^verbatim>\<open>maxModulus\<close> equal to 6; its
  one caller passes the length of an array, an integer, which \<^verbatim>\<open>Math.round\<close> leaves as it is.
  None of the three bumps the change counter.
\<close>

definition maxModulus :: int where
  "maxModulus = 6"

definition Fence_set_variant :: "nat \<Rightarrow> FenceVariant \<Rightarrow> Sim \<Rightarrow> Sim" where
  "Fence_set_variant this v w =
     (if v = variant (heap w this) then w else updPart this (\<lambda>p. p\<lparr> variant := v \<rparr>) w)"

definition Fence_set_modulus :: "nat \<Rightarrow> int \<Rightarrow> Sim \<Rightarrow> Sim" where
  "Fence_set_modulus this v w =
     (let v' = min (max 1 v) maxModulus in
      if v' = modulus (heap w this) then w else updPart this (\<lambda>p. p\<lparr> modulus := v' \<rparr>) w)"

definition Fence_set_sequence :: "nat \<Rightarrow> int \<Rightarrow> Sim \<Rightarrow> Sim" where
  "Fence_set_sequence this v w =
     (if v = sequence (heap w this) then w else updPart this (\<lambda>p. p\<lparr> sequence := v \<rparr>) w)"

text \<open>
  \<^verbatim>\<open>Board._makeSlope(fences, leftNorthFence, rightNorthFence)\<close>. The array is emptied at
  the end (\<^verbatim>\<open>fences.splice(0, fences.length)\<close>), so the caller's \<^verbatim>\<open>slopeParts\<close> is empty
  after every call; the model returns the board only and the caller resets its list.
  \<open>slopeLoop\<close> is the \<^verbatim>\<open>for\<close> loop over the indices of the array.
\<close>

definition northMatches :: "Sim \<Rightarrow> nat option \<Rightarrow> bool \<Rightarrow> bool" where
  "northMatches w northFence flipped =
     (case northFence of None \<Rightarrow> False | Some n \<Rightarrow> isFlipped (heap w n) = flipped)"

definition slopeLoop :: "nat list \<Rightarrow> Sim \<Rightarrow> Sim" where
  "slopeLoop fences w =
     fold (\<lambda>i w'.
        let f = fences ! i;
            w1 = Fence_set_variant f SLOPE w';
            w2 = Fence_set_modulus f (int (length fences)) w1
        in Fence_set_sequence f
             (if isFlipped (heap w2 f) then (int (length fences) - 1) - int i else int i) w2)
       [0 ..< length fences] w"

definition makeSlope :: "nat list \<Rightarrow> nat option \<Rightarrow> nat option \<Rightarrow> Sim \<Rightarrow> Sim" where
  "makeSlope fences leftNorthFence rightNorthFence w =
     (if \<not> (length fences > 0) then w
      else
        let (fences1, w1) =
              (if isFlipped (heap w (fences ! 0)) \<and> northMatches w leftNorthFence True
               then (tl fences, Fence_set_variant (hd fences) SIDE w)
               else if \<not> isFlipped (heap w (fences ! 0)) \<and> northMatches w rightNorthFence False
               then (butlast fences, Fence_set_variant (last fences) SIDE w)
               else (fences, w))
        in if length fences1 = 1 then Fence_set_variant (fences1 ! 0) SIDE w1
           else slopeLoop fences1 w1)"

text \<open>
  \<^verbatim>\<open>Board._updateFences\<close>: the state of the scan is \<^verbatim>\<open>slopeParts\<close>, \<^verbatim>\<open>leftNorthFence\<close>,
  \<^verbatim>\<open>rightNorthFence\<close> (\<^verbatim>\<open>undefined\<close> at first, \<^verbatim>\<open>null\<close> later: both are \<open>None\<close>) and the board.
  \<open>fencePart\<close> is the body of the inner loop, \<open>fenceRow\<close> the inner loop and \<open>fenceRows\<close> the
  outer one, which closes the run at the end of each row.
\<close>

type_synonym FenceScan = "nat list \<times> nat option \<times> nat option \<times> Sim"

definition closeSlope :: "FenceScan \<Rightarrow> FenceScan" where
  "closeSlope st =
     (case st of (slopeParts, leftNorthFence, rightNorthFence, w) \<Rightarrow>
        ([], None, None, makeSlope slopeParts leftNorthFence rightNorthFence w))"

definition isSideFence :: "Sim \<Rightarrow> nat option \<Rightarrow> bool" where
  "isSideFence w x =
     (case x of None \<Rightarrow> False
      | Some p \<Rightarrow> ptype (heap w p) = FENCE \<and> variant (heap w p) = SIDE)"

definition fencePart :: "nat \<Rightarrow> nat \<Rightarrow> nat \<Rightarrow> FenceScan \<Rightarrow> FenceScan" where
  "fencePart r c part st =
     (case st of (slopeParts, leftNorthFence, rightNorthFence, w) \<Rightarrow>
        if ptype (heap w part) = FENCE then
          let northPart = getPart w (int c) (int r - 1);
              (leftNorthFence1, rightNorthFence1) =
                (if isSideFence w northPart then
                   (if length slopeParts = 0 then (northPart, rightNorthFence)
                    else (leftNorthFence, northPart))
                 else (leftNorthFence, None));
              st1 =
                (if length slopeParts > 0
                    \<and> isFlipped (heap w (slopeParts ! 0)) \<noteq> isFlipped (heap w part)
                 then closeSlope (slopeParts, leftNorthFence1, rightNorthFence1, w)
                 else (slopeParts, leftNorthFence1, rightNorthFence1, w))
          in (case st1 of (slopeParts1, l, r', w1) \<Rightarrow> (slopeParts1 @ [part], l, r', w1))
        else if length slopeParts > 0 then closeSlope st
        else st)"

fun fenceRow :: "nat \<Rightarrow> nat \<Rightarrow> nat list \<Rightarrow> FenceScan \<Rightarrow> FenceScan" where
  "fenceRow r c [] st = st"
| "fenceRow r c (part # rest) st = fenceRow r (c + 1) rest (fencePart r c part st)"

fun fenceRows :: "nat \<Rightarrow> nat list list \<Rightarrow> FenceScan \<Rightarrow> FenceScan" where
  "fenceRows r [] st = st"
| "fenceRows r (row' # rows) st =
     (let st1 = fenceRow r 0 row' st;
          st2 = (if length (fst st1) > 0 then closeSlope st1 else st1)
      in fenceRows (r + 1) rows st2)"

definition updateFences :: "Sim \<Rightarrow> Sim" where
  "updateFences w = snd (snd (snd (fenceRows 0 (grid w) ([], None, None, w))))"




section \<open>Operations of the board\<close>


definition backgroundType :: "int \<Rightarrow> int \<Rightarrow> PartType" where
  "backgroundType column' row' = (if (row' + column') mod 2 = 0 then PARTLOC else GEARLOC)"


definition layoutPart :: "nat \<Rightarrow> real \<Rightarrow> real \<Rightarrow> Sim \<Rightarrow> Sim" where
  "layoutPart part column' row' w = Part_set_row part row' (Part_set_column part column' w)"

definition onChange :: "Sim \<Rightarrow> Sim" where
  "onChange w = w\<lparr> boardChangeCounter := boardChangeCounter w + 1 \<rparr>"


subsection \<open>\<^verbatim>\<open>setSize\<close>\<close>






subsection \<open>\<^verbatim>\<open>setPart\<close>, \<^verbatim>\<open>clearPart\<close>, \<^verbatim>\<open>flipPart\<close> and \<^verbatim>\<open>addBall\<close>\<close>

text \<open>
  \<^verbatim>\<open>setPart(newPart, column, row)\<close> for a part object \<^verbatim>\<open>newPart\<close> (no caller passes \<^verbatim>\<open>null\<close>) and
  integer coordinates. Inside the bounds \<^verbatim>\<open>oldPart\<close> is the part of the cell. The setter of
  \<^verbatim>\<open>isOnPartLocation\<close> exists on \<^verbatim>\<open>Gear\<close> only. \<open>averageRotation\<close> is the loop that sums the
  rotations of \<^verbatim>\<open>newPart.connected\<close>, divided by the size of the set; the assignment to
  \<^verbatim>\<open>newPart.rotation\<close> goes through the setter of \<^verbatim>\<open>GearBase\<close>.
\<close>

definition averageRotation :: "Sim \<Rightarrow> nat list \<Rightarrow> number" where
  "averageRotation w members =
     num_div (fold (\<lambda>part sum'. num_add sum' (rotation (heap w part))) members (Num 0))
       (Num (real (length members)))"

definition Board_setPart :: "nat \<Rightarrow> int \<Rightarrow> int \<Rightarrow> Sim \<Rightarrow> (Error + Sim) option" where
  "Board_setPart newPart' column' row' w =
     (if column' < 0 \<or> column' \<ge> int (columnCount w) \<or> row' < 0 \<or> row' \<ge> int (rowCount w)
      then Some (Inr w)
      else
        let oldPart = grid w ! nat row' ! nat column' in
        if oldPart = newPart' then Some (Inr w)
        else
          let w1 = w\<lparr> grid := (grid w)[nat row' := (grid w ! nat row')[nat column' := newPart']] \<rparr>;
              w2 = layoutPart newPart' (real_of_int column') (real_of_int row') w1;
              w3 = (if ptype (heap w2 newPart') = GEAR
                    then updPart newPart'
                           (\<lambda>p. p\<lparr> isOnPartLocation := ((column' + row') mod 2 = 0) \<rparr>) w2
                    else w2);
              oldGear = isGearBase (ptype (heap w3 oldPart));
              newGear = isGearBase (ptype (heap w3 newPart'))
          in bind
               (if oldGear \<or> newGear then
                  let w4 = (if oldGear then updPart oldPart (\<lambda>p. p\<lparr> connected_set := None \<rparr>) w3
                            else w3)
                  in bind (connectGears w4) (\<lambda>w5.
                       Some (Inr
                         (case connected_set (heap w5 newPart') of
                            Some members \<Rightarrow>
                              if newGear then
                                set_rotation None newPart'
                                  (if num_ge (averageRotation w5 members) (Num (1/2))
                                   then Num 1 else Num 0) w5
                              else w5
                          | None \<Rightarrow> w5)))
                else Some (Inr w3))
               (\<lambda>w6.
                  let w7 = (if ptype (heap w6 oldPart) = FENCE \<or> ptype (heap w6 newPart') = FENCE
                            then updateFences w6 else w6)
                  in Some (Inr (onChange w7))))"




section \<open>What the operations leave unchanged\<close>

text \<open>
  \<open>kept N w w'\<close>: the grid, its size and the allocation pointer are the same in \<open>w'\<close> as in
  \<open>w\<close>, and so is every part up to the fields that \<open>N\<close> forgets.
\<close>

definition kept :: "(Part \<Rightarrow> 'a) \<Rightarrow> Sim \<Rightarrow> Sim \<Rightarrow> bool" where
  "kept N w w' =
     (grid w' = grid w \<and> rowCount w' = rowCount w \<and> columnCount w' = columnCount w
      \<and> nextPart w' = nextPart w \<and> (\<forall>p. N (heap w' p) = N (heap w p)))"

definition exceptGearLinks :: "Part \<Rightarrow> Part" where
  "exceptGearLinks p = p\<lparr> connectionLabel := 0, connected_set := None \<rparr>"

definition exceptFenceLayout :: "Part \<Rightarrow> Part" where
  "exceptFenceLayout p = p\<lparr> variant := PREVIEW, modulus := 0, sequence := 0 \<rparr>"

definition exceptRotation :: "Part \<Rightarrow> Part" where
  "exceptRotation p = p\<lparr> rotation := Num 0, changeCounter := 0 \<rparr>"

definition exceptPosition :: "Part \<Rightarrow> Part" where
  "exceptPosition p = p\<lparr> column := 0, row := 0, changeCounter := 0, isOnPartLocation := False \<rparr>"

lemma kept_refl [simp]: "kept N w w"
  by (simp add: kept_def)

lemma kept_trans: "kept N w w1 \<Longrightarrow> kept N w1 w2 \<Longrightarrow> kept N w w2"
  by (simp add: kept_def)

lemma kept_weaken:
  assumes "kept N w w'" and "\<And>a b. N a = N b \<Longrightarrow> M a = M b"
  shows "kept M w w'"
proof -
  have "\<And>p. M (heap w' p) = M (heap w p)"
    using assms(1) by (intro assms(2)) (simp add: kept_def)
  then show ?thesis using assms(1) by (simp add: kept_def)
qed

lemma kept_updPart:
  assumes "N (f (heap w p)) = N (heap w p)"
  shows "kept N w (updPart p f w)"
  using assms by (simp add: kept_def updPart_def)

lemma kept_sameBoard: "kept ptype w w' \<Longrightarrow> sameBoard w w'"
  by (simp add: kept_def sameBoard_def)

lemma kept_subjects: "kept N w (w\<lparr> subjects := s \<rparr>)"
  by (simp add: kept_def)

lemma ptype_exceptGearLinks: "exceptGearLinks a = exceptGearLinks b \<Longrightarrow> ptype a = ptype b"
  by (drule arg_cong [where f = ptype]) (simp add: exceptGearLinks_def)

lemma rotation_exceptGearLinks: "exceptGearLinks a = exceptGearLinks b \<Longrightarrow> rotation a = rotation b"
  by (drule arg_cong [where f = rotation]) (simp add: exceptGearLinks_def)



lemma ptype_exceptPosition: "exceptPosition a = exceptPosition b \<Longrightarrow> ptype a = ptype b"
  by (drule arg_cong [where f = ptype]) (simp add: exceptPosition_def)

subsection \<open>Gear connectivity\<close>

lemma bind_Inr:
  assumes "bind m f = Some (Inr y)"
  obtains x where "m = Some (Inr x)" and "f x = Some (Inr y)"
  using assms by (cases m) (auto simp: bind_def split: sum.splits)

lemma setLabel_kept: "kept exceptGearLinks w (setLabel x l w)"
  unfolding setLabel_def by (rule kept_updPart) (simp add: exceptGearLinks_def)

lemma labelPart_kept:
  assumes "labelPart n west part (L, eq, w1) = Some (Inr (L', eq', w2))"
    and "kept exceptGearLinks w w1"
  shows "kept exceptGearLinks w w2"
proof (cases "isGear w1 part")
  case False
  then have "w2 = w1" using assms(1) by (simp add: labelPart_def)
  then show ?thesis using assms(2) by simp
next
  case True
  let ?nl = "labelOf w1 n" and ?wl = "labelOf w1 west"
  have "\<exists>l. w2 = setLabel part l w1"
  proof (cases "?nl \<ge> 0 \<and> ?wl \<ge> 0 \<and> ?nl \<noteq> ?wl")
    case False
    then show ?thesis using assms(1) True
      by (auto simp: labelPart_def Let_def split: if_splits)
  next
    case m: True
    have "bind (mergeSets eq (min ?nl ?wl) (max ?nl ?wl))
            (\<lambda>(merged, equivalence'). Some (Inr (L, equivalence', setLabel part (min ?nl ?wl) w1)))
          = Some (Inr (L', eq', w2))"
      using assms(1) True m by (simp add: labelPart_def Let_def)
    then show ?thesis by (rule bind_Inr) (auto split: prod.splits)
  qed
  then show ?thesis
    using kept_trans [OF assms(2) setLabel_kept] by auto
qed

lemma labelRow_kept:
  assumes "labelRow r c west row' st = Some (Inr st')"
    and "kept exceptGearLinks w (snd (snd st))"
  shows "kept exceptGearLinks w (snd (snd st'))"
  using assms
proof (induction row' arbitrary: c west st)
  case Nil
  then show ?case by simp
next
  case (Cons part rest)
  obtain L eq w1 where st: "st = (L, eq, w1)" by (cases st)
  let ?n = "if r > 0 then getPart w1 (int c) (int r - 1) else None"
  have "bind (labelPart ?n west part (L, eq, w1))
          (\<lambda>st1. labelRow r (c + 1) (Some part) rest st1) = Some (Inr st')"
    using Cons.prems(1) unfolding st labelRow.simps Let_def snd_conv .
  then obtain st1 where
    a: "labelPart ?n west part (L, eq, w1) = Some (Inr st1)"
    and b: "labelRow r (c + 1) (Some part) rest st1 = Some (Inr st')"
    by (rule bind_Inr)
  obtain L1 eq1 w2 where st1: "st1 = (L1, eq1, w2)" by (cases st1)
  have "kept exceptGearLinks w w2"
    using labelPart_kept [OF a [unfolded st1]] Cons.prems(2) st by simp
  then show ?case using Cons.IH [OF b] st1 by simp
qed

lemma labelRows_kept:
  assumes "labelRows r rows st = Some (Inr st')"
    and "kept exceptGearLinks w (snd (snd st))"
  shows "kept exceptGearLinks w (snd (snd st'))"
  using assms
proof (induction rows arbitrary: r st)
  case Nil
  then show ?case by simp
next
  case (Cons row' rows)
  have "bind (labelRow r 0 None row' st) (\<lambda>st1. labelRows (r + 1) rows st1) = Some (Inr st')"
    using Cons.prems(1) by simp
  then obtain st1 where
    a: "labelRow r 0 None row' st = Some (Inr st1)"
    and b: "labelRows (r + 1) rows st1 = Some (Inr st')"
    by (rule bind_Inr)
  show ?case using Cons.IH [OF b labelRow_kept [OF a Cons.prems(2)]] .
qed

lemma assign_kept:
  "kept exceptGearLinks w
     (fold (\<lambda>(part, key) w'. updPart part (\<lambda>p. p\<lparr> connected_set := map_of sets key \<rparr>) w') refs w)"
proof (induction refs arbitrary: w)
  case Nil
  then show ?case by simp
next
  case (Cons x refs)
  obtain part key where x: "x = (part, key)" by (cases x)
  have "kept exceptGearLinks w (updPart part (\<lambda>p. p\<lparr> connected_set := map_of sets key \<rparr>) w)"
    by (rule kept_updPart) (simp add: exceptGearLinks_def)
  then show ?case using Cons.IH kept_trans by (simp add: x) blast
qed

lemma connectGears_kept:
  assumes "connectGears w = Some (Inr w')"
  shows "kept exceptGearLinks w w'"
proof (cases "new_DisjointSet (int (length (allGears w)))")
  case (Inl e)
  then show ?thesis using assms by (simp add: connectGears_def)
next
  case (Inr eq0)
  let ?assign = "\<lambda>sets refs w1. fold (\<lambda>(part, key) w'.
      updPart part (\<lambda>p. p\<lparr> connected_set := map_of sets key \<rparr>) w') refs w1"
  have "bind (labelRows 0 (grid w) (0, eq0, w)) (\<lambda>(label, equivalence1, w1).
          bind (groupGears (allGears w) w1 (equivalence1, [], [])) (\<lambda>(equivalence2, sets, refs).
            Some (Inr (?assign sets refs w1)))) = Some (Inr w')"
    using assms Inr by (simp add: connectGears_def Let_def)
  then obtain st1 where scan: "labelRows 0 (grid w) (0, eq0, w) = Some (Inr st1)"
    and rest: "(case st1 of (label, equivalence1, w1) \<Rightarrow>
          bind (groupGears (allGears w) w1 (equivalence1, [], [])) (\<lambda>(equivalence2, sets, refs).
            Some (Inr (?assign sets refs w1)))) = Some (Inr w')"
    by (rule bind_Inr)
  obtain L eq1 w1 where st1: "st1 = (L, eq1, w1)" by (cases st1)
  have rest1: "bind (groupGears (allGears w) w1 (eq1, [], [])) (\<lambda>(equivalence2, sets, refs).
            Some (Inr (?assign sets refs w1))) = Some (Inr w')"
    using rest unfolding st1 prod.case .
  obtain sets :: "(nat \<times> nat list) list" and refs :: "(nat \<times> nat) list"
    where w': "w' = ?assign sets refs w1"
  proof (cases "groupGears (allGears w) w1 (eq1, [], [])")
    case None
    then show ?thesis using rest1 by (simp add: bind_def)
  next
    case (Some res)
    show ?thesis
    proof (cases res)
      case (Inl e)
      then show ?thesis using rest1 Some by (simp add: bind_def)
    next
      case (Inr st2)
      obtain eq2 sets refs where "st2 = (eq2, sets, refs)" by (cases st2)
      then have "w' = ?assign sets refs w1" using rest1 Some Inr by (simp add: bind_def)
      then show ?thesis using that by blast
    qed
  qed
  have "kept exceptGearLinks w w1"
    using labelRows_kept [OF scan, of w] by (simp add: st1)
  then show ?thesis unfolding w' by (rule kept_trans [OF _ assign_kept])
qed

subsection \<open>Fences\<close>

lemma Fence_set_variant_kept: "kept exceptFenceLayout w (Fence_set_variant p v w)"
  unfolding Fence_set_variant_def
  by (simp add: kept_updPart exceptFenceLayout_def)

lemma Fence_set_modulus_kept: "kept exceptFenceLayout w (Fence_set_modulus p v w)"
  unfolding Fence_set_modulus_def Let_def
  by (simp add: kept_updPart exceptFenceLayout_def)

lemma Fence_set_sequence_kept: "kept exceptFenceLayout w (Fence_set_sequence p v w)"
  unfolding Fence_set_sequence_def
  by (simp add: kept_updPart exceptFenceLayout_def)

lemma slopeLoop_kept: "kept exceptFenceLayout w (slopeLoop fences w)"
  unfolding slopeLoop_def
proof (rule fold_preserves [where P = "kept exceptFenceLayout w"])
  fix i s assume "kept exceptFenceLayout w s"
  then show "kept exceptFenceLayout w
     (let f = fences ! i; w1 = Fence_set_variant f SLOPE s;
          w2 = Fence_set_modulus f (int (length fences)) w1
      in Fence_set_sequence f
           (if isFlipped (heap w2 f) then int (length fences) - 1 - int i else int i) w2)"
    unfolding Let_def
    by (blast intro: kept_trans Fence_set_variant_kept Fence_set_modulus_kept
        Fence_set_sequence_kept)
qed simp

lemma makeSlope_kept: "kept exceptFenceLayout w (makeSlope fences l r w)"
proof -
  have a: "\<And>fs p. kept exceptFenceLayout w (slopeLoop fs (Fence_set_variant p SIDE w))"
    by (blast intro: kept_trans Fence_set_variant_kept slopeLoop_kept)
  have b: "\<And>p q. kept exceptFenceLayout w (Fence_set_variant q SIDE (Fence_set_variant p SIDE w))"
    by (blast intro: kept_trans Fence_set_variant_kept)
  show ?thesis
    by (simp add: makeSlope_def Let_def a b Fence_set_variant_kept slopeLoop_kept)
qed

lemma closeSlope_kept:
  assumes "kept exceptFenceLayout w (snd (snd (snd st)))"
  shows "kept exceptFenceLayout w (snd (snd (snd (closeSlope st))))"
proof -
  obtain sp l r w1 where st: "st = (sp, l, r, w1)" by (cases st)
  show ?thesis using assms kept_trans [OF _ makeSlope_kept] by (simp add: st closeSlope_def)
qed

lemma fencePart_kept:
  assumes "kept exceptFenceLayout w (snd (snd (snd st)))"
  shows "kept exceptFenceLayout w (snd (snd (snd (fencePart r c part st))))"
proof -
  obtain sp l rn w1 where st: "st = (sp, l, rn, w1)" by (cases st)
  have k: "kept exceptFenceLayout w w1" using assms st by simp
  have c: "\<And>sp' l' r'. kept exceptFenceLayout w (snd (snd (snd (closeSlope (sp', l', r', w1)))))"
    using closeSlope_kept [of w] k by simp
  show ?thesis
    by (simp add: st fencePart_def Let_def case_prod_beta k c)
qed

lemma fenceRow_kept:
  assumes "kept exceptFenceLayout w (snd (snd (snd st)))"
  shows "kept exceptFenceLayout w (snd (snd (snd (fenceRow r c row' st))))"
  using assms by (induction row' arbitrary: c st) (simp_all add: fencePart_kept)

lemma fenceRows_kept:
  assumes "kept exceptFenceLayout w (snd (snd (snd st)))"
  shows "kept exceptFenceLayout w (snd (snd (snd (fenceRows r rows st))))"
  using assms
proof (induction rows arbitrary: r st)
  case Nil
  then show ?case by simp
next
  case (Cons row' rows)
  have a: "kept exceptFenceLayout w (snd (snd (snd (fenceRow r 0 row' st))))"
    using Cons.prems by (rule fenceRow_kept)
  have b: "kept exceptFenceLayout w (snd (snd (snd (closeSlope (fenceRow r 0 row' st)))))"
    using a by (rule closeSlope_kept)
  show ?case using a b by (simp add: Let_def Cons.IH)
qed

lemma updateFences_kept: "kept exceptFenceLayout w (updateFences w)"
  unfolding updateFences_def by (rule fenceRows_kept) simp

subsection \<open>Setters, the animator and \<^verbatim>\<open>flip\<close>\<close>

lemma kept_stopAnimating: "kept N w (Animator_stopAnimating s pr w)"
  by (simp add: kept_def Animator_stopAnimating_def Let_def split: option.splits)

lemma Part_set_rotation_kept: "kept exceptRotation w (Part_set_rotation p v w)"
  unfolding Part_set_rotation_def Let_def
  by (simp add: kept_updPart exceptRotation_def)

lemma set_rotation_kept: "kept exceptRotation w (set_rotation setting this v w)"
proof (induction setting this v w rule: set_rotation.induct)
  case (1 setting this v w)
  let ?step = "\<lambda>part w'. if part \<noteq> this then set_rotation (Some this) part v w' else w'"
  have loop: "kept exceptRotation w (fold ?step members w)"
    if "isGearBase (ptype (heap w this))" "setting = None"
      "connected_set (heap w this) = Some members" for members
  proof (rule fold_preserves [where P = "kept exceptRotation w"])
    fix x s assume "x \<in> set members" "kept exceptRotation w s"
    then show "kept exceptRotation w (?step x s)"
      using kept_trans [OF _ "1.IH" [OF that(1) that(2) that(3), of x s]]
      by (cases "x = this") auto
  qed simp
  have fin: "\<And>w1. kept exceptRotation w w1
      \<Longrightarrow> kept exceptRotation w (Part_set_rotation this v w1)"
    by (blast intro: kept_trans Part_set_rotation_kept)
  have stop: "\<And>w1. kept exceptRotation w w1
      \<Longrightarrow> kept exceptRotation w (Animator_stopAnimating this ''rotation'' w1)"
    by (blast intro: kept_trans kept_stopAnimating)
  show ?case
    by (subst set_rotation.simps) (simp add: Let_def loop fin stop split: option.splits)
qed

lemma Part_set_column_kept: "kept exceptPosition w (Part_set_column p v w)"
  unfolding Part_set_column_def by (simp add: kept_updPart exceptPosition_def)

lemma Part_set_row_kept: "kept exceptPosition w (Part_set_row p v w)"
  unfolding Part_set_row_def by (simp add: kept_updPart exceptPosition_def)

lemma layoutPart_kept: "kept exceptPosition w (layoutPart p c r w)"
  unfolding layoutPart_def
  by (blast intro: kept_trans Part_set_column_kept Part_set_row_kept)












section \<open>The grid invariant\<close>

text \<open>
  \<open>typeOK t c r\<close>: a part of class \<open>t\<close> may sit in the cell of column \<open>c\<close> and row \<open>r\<close>: it is
  not a ball, and if it is a background part it is the one of the cell's parity.
  \<open>gridInvariant\<close> is the invariant of the grid: \<^verbatim>\<open>_rowCount\<close> rows of \<^verbatim>\<open>_columnCount\<close> parts,
  each of a class that may sit in its cell. \<open>boardInv\<close> adds that no part object sits in two
  cells and that every part of the grid is an allocated object.
\<close>

definition typeOK :: "PartType \<Rightarrow> nat \<Rightarrow> nat \<Rightarrow> bool" where
  "typeOK t c r = (t \<noteq> BALL \<and> (t = PARTLOC \<or> t = GEARLOC \<longrightarrow> t = backgroundType (int c) (int r)))"



text \<open>The same, row by row, for a list of rows that starts at row \<open>r0\<close>.\<close>

definition rowOK :: "Sim \<Rightarrow> nat \<Rightarrow> nat list \<Rightarrow> bool" where
  "rowOK w r row' = (\<forall>c < length row'. typeOK (ptype (heap w (row' ! c))) c r)"

definition rowsOK :: "Sim \<Rightarrow> nat \<Rightarrow> nat list list \<Rightarrow> bool" where
  "rowsOK w r0 rows = (\<forall>i < length rows. rowOK w (r0 + i) (rows ! i))"

definition grown :: "Sim \<Rightarrow> Sim \<Rightarrow> bool" where
  "grown w w' =
     (grid w' = grid w \<and> rowCount w' = rowCount w \<and> columnCount w' = columnCount w
      \<and> nextPart w \<le> nextPart w'
      \<and> (\<forall>p < nextPart w. ptype (heap w' p) = ptype (heap w p)))"

lemma grown_refl [simp]: "grown w w"
  by (simp add: grown_def)







lemma typeOK_background [simp]: "typeOK (backgroundType (int c) (int r)) c r"
  by (simp add: typeOK_def backgroundType_def)



lemma layoutPart_kept_ptype: "kept ptype w (layoutPart p c r w)"
  by (rule kept_weaken [OF layoutPart_kept]) (rule ptype_exceptPosition)

lemma layoutPart_ptype [simp]: "ptype (heap (layoutPart p c r w) q) = ptype (heap w q)"
  using layoutPart_kept_ptype [of w p c r] unfolding kept_def by blast

lemma layoutPart_nextPart [simp]: "nextPart (layoutPart p c r w) = nextPart w"
  using layoutPart_kept_ptype [of w p c r] unfolding kept_def by blast



lemma rowsOK_Nil [simp]: "rowsOK w r []"
  by (simp add: rowsOK_def)


lemma rowOK_grid [simp]: "rowOK (w\<lparr> grid := g \<rparr>) r row' = rowOK w r row'"
  by (simp add: rowOK_def)

lemma rowsOK_grid [simp]: "rowsOK (w\<lparr> grid := g \<rparr>) r rows = rowsOK w r rows"
  by (simp add: rowsOK_def)


subsection \<open>The rows of a board\<close>

definition rowsInv :: "Sim \<Rightarrow> nat \<Rightarrow> nat \<Rightarrow> bool" where
  "rowsInv w cc k =
     (length (grid w) = k \<and> (\<forall>row' \<in> set (grid w). length row' = cc)
      \<and> distinct (concat (grid w)) \<and> (\<forall>p \<in> set (concat (grid w)). p < nextPart w)
      \<and> rowsOK w 0 (grid w))"


lemma rowsInv_counts [simp]:
  "rowsInv (w\<lparr> rowCount := x \<rparr>) cc k = rowsInv w cc k"
  "rowsInv (w\<lparr> columnCount := y \<rparr>) cc k = rowsInv w cc k"
  by (simp_all add: rowsInv_def rowsOK_def rowOK_def)












subsection \<open>\<^verbatim>\<open>setPart\<close> and \<^verbatim>\<open>clearPart\<close>\<close>



lemma distinct_concat_update:
  assumes "distinct (concat g)" "p \<notin> set (concat g)" "i < length g"
  shows "distinct (concat (g[i := (g ! i)[j := p]]))"
    and "set (concat (g[i := (g ! i)[j := p]])) \<subseteq> insert p (set (concat g))"
proof -
  let ?row = "(g ! i)[j := p]"
  have g: "g = take i g @ g ! i # drop (Suc i) g" using assms(3) by (rule id_take_nth_drop)
  have g': "g[i := ?row] = take i g @ ?row # drop (Suc i) g"
    using assms(3) by (rule upd_conv_take_nth_drop)
  have c: "concat g = concat (take i g) @ g ! i @ concat (drop (Suc i) g)"
    by (subst g) simp
  have c': "concat (g[i := ?row]) = concat (take i g) @ ?row @ concat (drop (Suc i) g)"
    by (simp add: g')
  have d: "distinct (concat (take i g))" "distinct (g ! i)" "distinct (concat (drop (Suc i) g))"
    "set (concat (take i g)) \<inter> set (g ! i) = {}"
    "set (concat (take i g)) \<inter> set (concat (drop (Suc i) g)) = {}"
    "set (g ! i) \<inter> set (concat (drop (Suc i) g)) = {}"
    using assms(1) unfolding c by auto
  have pn: "p \<notin> set (concat (take i g))" "p \<notin> set (g ! i)" "p \<notin> set (concat (drop (Suc i) g))"
    using assms(2) unfolding c by auto
  have sub: "set ?row \<subseteq> insert p (set (g ! i))" by (rule set_update_subset_insert)
  have dr: "distinct ?row" using d(2) pn(2) by (simp add: distinct_list_update)
  have e1: "set (concat (take i g)) \<inter> set ?row = {}" using d(4) pn(1) sub by blast
  have e2: "set ?row \<inter> set (concat (drop (Suc i) g)) = {}" using d(6) pn(3) sub by blast
  show "distinct (concat (g[i := ?row]))"
    unfolding c' using d(1,3,5) dr e1 e2 by (simp del: set_concat add: Int_Un_distrib)
  have "set (concat (g[i := ?row]))
      = set (concat (take i g)) \<union> set ?row \<union> set (concat (drop (Suc i) g))"
    unfolding c' by (simp del: set_concat add: Un_assoc)
  moreover have "set (concat g)
      = set (concat (take i g)) \<union> set (g ! i) \<union> set (concat (drop (Suc i) g))"
    by (subst c) (simp del: set_concat add: Un_assoc)
  ultimately show "set (concat (g[i := ?row])) \<subseteq> insert p (set (concat g))"
    using sub by blast
qed







subsection \<open>Every operation keeps the invariant\<close>













section \<open>The rotation of a gear that is placed\<close>

text \<open>
  \<open>placed w p c r\<close> is the board with the part \<open>p\<close> in the cell of column \<open>c\<close> and row \<open>r\<close>: the
  grid on which \<^verbatim>\<open>setPart\<close> rebuilds the gear connections.
\<close>

definition placed :: "Sim \<Rightarrow> nat \<Rightarrow> int \<Rightarrow> int \<Rightarrow> Sim" where
  "placed w p c r = w\<lparr> grid := (grid w)[nat r := (grid w ! nat r)[nat c := p]] \<rparr>"

definition roundedAverage :: "Sim \<Rightarrow> nat list \<Rightarrow> number" where
  "roundedAverage w members =
     (if num_ge (averageRotation w members) (Num (1/2)) then Num 1 else Num 0)"

lemma gearCells_kept: "kept ptype w w' \<Longrightarrow> gearCells w' = gearCells w"
  by (simp add: kept_def gearCells_def isGear_def)

lemma gearAdjacent_kept: "kept ptype w w' \<Longrightarrow> gearAdjacent w' = gearAdjacent w"
  by (simp add: kept_def gearAdjacent_def isGear_def)

lemma gridOK_kept: "kept N w w' \<Longrightarrow> gridOK w' = gridOK w"
  by (simp add: kept_def gridOK_def)

lemma averageRotation_cong:
  assumes "\<And>q. rotation (heap w' q) = rotation (heap w q)"
  shows "averageRotation w' S = averageRotation w S"
  by (simp add: averageRotation_def assms)

lemma kept_fields:
  assumes "kept N w w'" and "\<And>a b. N a = N b \<Longrightarrow> fld a = fld b"
  shows "fld (heap w' q) = fld (heap w q)"
  using assms(1) by (intro assms(2)) (simp add: kept_def)

lemma rotation_exceptPosition: "exceptPosition a = exceptPosition b \<Longrightarrow> rotation a = rotation b"
  by (drule arg_cong [where f = rotation]) (simp add: exceptPosition_def)

lemma rotation_exceptFenceLayout:
  "exceptFenceLayout a = exceptFenceLayout b \<Longrightarrow> rotation a = rotation b"
  by (drule arg_cong [where f = rotation]) (simp add: exceptFenceLayout_def)

lemma connected_exceptFenceLayout:
  "exceptFenceLayout a = exceptFenceLayout b \<Longrightarrow> connected_set a = connected_set b"
  by (drule arg_cong [where f = connected_set]) (simp add: exceptFenceLayout_def)

lemma connected_exceptRotation:
  "exceptRotation a = exceptRotation b \<Longrightarrow> connected_set a = connected_set b"
  by (drule arg_cong [where f = connected_set]) (simp add: exceptRotation_def)

lemma distinct_singleton: "distinct S \<Longrightarrow> set S = {x} \<Longrightarrow> S = [x]"
proof (cases S)
  case Nil
  assume "set S = {x}"
  then show ?thesis using Nil by simp
next
  case (Cons a rest)
  assume d: "distinct S" and s: "set S = {x}"
  have "a = x" using s Cons by auto
  moreover have "set rest \<subseteq> {x}" using s Cons by auto
  moreover have "a \<notin> set rest" using d Cons by simp
  ultimately have "rest = []" by (cases rest) auto
  then show ?thesis using \<open>a = x\<close> Cons by simp
qed

lemma setPart_gear_spec:
  assumes ok: "gridOK w" and d: "distinct (concat (grid w))"
    and fresh: "p \<notin> set (concat (grid w))"
    and c: "0 \<le> c" "c < int (columnCount w)" and r: "0 \<le> r" "r < int (rowCount w)"
    and gear: "isGearBase (ptype (heap w p))"
  shows "\<exists>w' S. Board_setPart p c r w = Some (Inr w')
           \<and> connected_set (heap w' p) = Some S \<and> p \<in> set S \<and> distinct S
           \<and> set S = {q \<in> gearCells (placed w p c r). (p, q) \<in> (gearAdjacent (placed w p c r))\<^sup>*}
           \<and> (\<forall>q \<in> set S. rotation (heap w' q) = roundedAverage w S)"
proof -
  define nr where "nr = nat r"
  define nc where "nc = nat c"
  have b: "nr < rowCount w" "nc < columnCount w"
    using c r unfolding nr_def nc_def by linarith+
  define oldPart where "oldPart = grid w ! nr ! nc"
  have rl: "nr < length (grid w)" "nc < length (grid w ! nr)"
    using ok b by (simp_all add: gridOK_def)
  have "oldPart \<in> set (concat (grid w))"
    unfolding oldPart_def set_concat using rl by (metis UN_I nth_mem)
  then have ne: "oldPart \<noteq> p" using fresh by auto
  define w1 where "w1 = w\<lparr> grid := (grid w)[nr := (grid w ! nr)[nc := p]] \<rparr>"
  define w2 where "w2 = layoutPart p (real_of_int c) (real_of_int r) w1"
  define w3 where "w3 = (if ptype (heap w2 p) = GEAR
      then updPart p (\<lambda>q. q\<lparr> isOnPartLocation := ((c + r) mod 2 = 0) \<rparr>) w2 else w2)"
  define oldGear where "oldGear = isGearBase (ptype (heap w3 oldPart))"
  define w4 where "w4 = (if oldGear then updPart oldPart (\<lambda>q. q\<lparr> connected_set := None \<rparr>) w3
      else w3)"
  define finish where "finish = (\<lambda>w6.
      let w7 = (if ptype (heap w6 oldPart) = FENCE \<or> ptype (heap w6 p) = FENCE
                then updateFences w6 else w6)
      in Some (Inr (onChange w7)) :: (Error + Sim) option)"
  define rotate where "rotate = (\<lambda>w5.
      Some (Inr
        (case connected_set (heap w5 p) of
           Some members \<Rightarrow>
             if isGearBase (ptype (heap w3 p)) then
               set_rotation None p
                 (if num_ge (averageRotation w5 members) (Num (1/2)) then Num 1 else Num 0) w5
             else w5
         | None \<Rightarrow> w5)) :: (Error + Sim) option)"
  have pl: "w1 = placed w p c r" by (simp add: w1_def placed_def nr_def nc_def)
  have k12: "kept exceptPosition w1 w2" unfolding w2_def by (rule layoutPart_kept)
  have k23: "kept exceptPosition w2 w3"
    unfolding w3_def by (simp add: kept_updPart exceptPosition_def)
  have k13: "kept exceptPosition w1 w3" by (rule kept_trans [OF k12 k23])
  have k34: "kept exceptGearLinks w3 w4"
    unfolding w4_def by (simp add: kept_updPart exceptGearLinks_def)
  have t13: "kept ptype w1 w3" by (rule kept_weaken [OF k13]) (rule ptype_exceptPosition)
  have t34: "kept ptype w3 w4" by (rule kept_weaken [OF k34]) (rule ptype_exceptGearLinks)
  have t14: "kept ptype w1 w4" by (rule kept_trans [OF t13 t34])
  have ty: "\<And>q. ptype (heap w1 q) = ptype (heap w q)" by (simp add: w1_def)
  have ty3: "\<And>q. ptype (heap w3 q) = ptype (heap w q)"
    using t13 ty by (simp add: kept_def)
  have newGear: "isGearBase (ptype (heap w3 p))" using gear ty3 by simp
  have res: "Board_setPart p c r w = bind (bind (connectGears w4) rotate) finish"
    using c r ne newGear
    unfolding Board_setPart_def rotate_def finish_def w4_def oldGear_def w3_def
      w2_def w1_def oldPart_def nr_def nc_def Let_def
    by simp
  have g1: "grid w1 = (grid w)[nr := (grid w ! nr)[nc := p]]" by (simp add: w1_def)
  have ok1: "gridOK w1"
  proof -
    have "\<forall>row' \<in> set (grid w1). length row' = columnCount w"
    proof
      fix row' assume "row' \<in> set (grid w1)"
      then have "row' \<in> insert ((grid w ! nr)[nc := p]) (set (grid w))"
        unfolding g1 using set_update_subset_insert by fastforce
      then show "length row' = columnCount w" using ok rl by (auto simp: gridOK_def)
    qed
    then show ?thesis using ok by (simp add: gridOK_def w1_def)
  qed
  have d1: "distinct (concat (grid w1))"
    unfolding g1 by (rule distinct_concat_update(1) [OF d fresh rl(1)])
  have g4: "grid w4 = grid w1" using t14 by (simp add: kept_def)
  have ok4: "gridOK w4" using ok1 gridOK_kept [OF t14] by simp
  have d4: "distinct (concat (grid w4))" using d1 g4 by simp
  have cells4: "gearCells w4 = gearCells w1" by (rule gearCells_kept [OF t14])
  have adj4: "gearAdjacent w4 = gearAdjacent w1" by (rule gearAdjacent_kept [OF t14])
  have pin: "p \<in> set (concat (grid w1))"
  proof -
    have "p \<in> set ((grid w ! nr)[nc := p])" using rl(2) by (simp add: set_update_memI)
    moreover have "(grid w ! nr)[nc := p] \<in> set (grid w1)"
      unfolding g1 using rl(1) by (simp add: set_update_memI)
    ultimately show ?thesis unfolding set_concat by blast
  qed
  have pg: "p \<in> gearCells w4"
    unfolding cells4 using pin gear ty by (simp add: gearCells_def isGear_def)
  from connectGears_spec [OF ok4 d4]
  obtain w5 and f :: "nat \<Rightarrow> nat" where run: "connectGears w4 = Some (Inr w5)"
    and conn: "\<And>q. q \<in> gearCells w4 \<Longrightarrow> connected_set (heap w5 q)
        = Some (filter (\<lambda>x. f x = f q) (filter (isGear w4) (concat (grid w4))))"
    and iff: "\<And>q x. q \<in> gearCells w4 \<Longrightarrow>
        (f q = f x \<and> x \<in> gearCells w4) = ((q, x) \<in> joined w4)"
    by blast
  define S where "S = filter (\<lambda>x. f x = f p) (filter (isGear w4) (concat (grid w4)))"
  have cs5: "connected_set (heap w5 p) = Some S" using conn [OF pg] by (simp add: S_def)
  have dS: "distinct S" using d4 by (simp add: S_def)
  have setS: "set S = {q \<in> gearCells w1. (p, q) \<in> (gearAdjacent w1)\<^sup>*}"
  proof -
    have "set S = {q \<in> gearCells w4. f p = f q}" by (auto simp: S_def gearCells_def)
    also have "\<dots> = {q \<in> gearCells w4. (p, q) \<in> joined w4}" using iff [OF pg] by blast
    finally show ?thesis by (simp add: joined_adjacent cells4 adj4)
  qed
  have pS: "p \<in> set S" using setS pg cells4 by simp
  have k45: "kept exceptGearLinks w4 w5" by (rule connectGears_kept [OF run])
  have k35: "kept exceptGearLinks w3 w5" by (rule kept_trans [OF k34 k45])
  have rot5: "rotation (heap w5 q) = rotation (heap w q)" for q
  proof -
    have "rotation (heap w5 q) = rotation (heap w3 q)"
      by (rule kept_fields [OF k35]) (rule rotation_exceptGearLinks)
    also have "\<dots> = rotation (heap w1 q)"
      by (rule kept_fields [OF k13]) (rule rotation_exceptPosition)
    finally show ?thesis by (simp add: w1_def)
  qed
  have ty5: "ptype (heap w5 q) = ptype (heap w q)" for q
  proof -
    have "ptype (heap w5 q) = ptype (heap w3 q)"
      by (rule kept_fields [OF k35]) (rule ptype_exceptGearLinks)
    then show ?thesis using ty3 by simp
  qed
  define v where "v = roundedAverage w S"
  have v5: "(if num_ge (averageRotation w5 S) (Num (1/2)) then Num 1 else Num 0) = v"
    using averageRotation_cong [of w5 w S] rot5 by (simp add: v_def roundedAverage_def)
  have cv: "clamp v = v" by (simp add: v_def roundedAverage_def clamp01_def)
  define w6 where "w6 = set_rotation None p v w5"
  have rot: "bind (connectGears w4) rotate = Some (Inr w6)"
    using newGear by (simp add: run rotate_def cs5 v5 w6_def)
  have members: "\<forall>m \<in> set S. isGearBase (ptype (heap w5 m))"
    using setS ty5 ty by (auto simp: gearCells_def isGear_def)
  have gear5: "isGearBase (ptype (heap w5 p))" using gear ty5 by simp
  have rot6: "\<forall>m \<in> set S. rotation (heap w6 m) = v"
    using gear_rotation_members [OF gear5 cs5 members, of v] cv by (simp add: w6_def)
  have k56: "kept exceptRotation w5 w6" unfolding w6_def by (rule set_rotation_kept)
  have "connected_set (heap w6 p) = connected_set (heap w5 p)"
    by (rule kept_fields [OF k56]) (rule connected_exceptRotation)
  then have cs6: "connected_set (heap w6 p) = Some S" using cs5 by simp
  define w7 where "w7 = (if ptype (heap w6 oldPart) = FENCE \<or> ptype (heap w6 p) = FENCE
      then updateFences w6 else w6)"
  have k67: "kept exceptFenceLayout w6 w7"
    unfolding w7_def by (simp add: updateFences_kept)
  have fin: "finish w6 = Some (Inr (onChange w7))" by (simp add: finish_def w7_def)
  have heap8: "heap (onChange w7) = heap w7" by (simp add: onChange_def)
  have "connected_set (heap w7 p) = connected_set (heap w6 p)"
    by (rule kept_fields [OF k67]) (rule connected_exceptFenceLayout)
  then have cs8: "connected_set (heap (onChange w7) p) = Some S"
    using cs6 by (simp add: heap8)
  have "rotation (heap w7 m) = rotation (heap w6 m)" for m
    by (rule kept_fields [OF k67]) (rule rotation_exceptFenceLayout)
  then have rot8: "\<forall>m \<in> set S. rotation (heap (onChange w7) m) = v"
    using rot6 by (simp add: heap8)
  have "Board_setPart p c r w = Some (Inr (onChange w7))"
    by (simp add: res rot fin)
  then show ?thesis
    using cs8 pS dS setS rot8 unfolding pl v_def by blast
qed

lemma roundedAverage_single:
  "roundedAverage w [p] = (if num_ge (rotation (heap w p)) (Num (1/2)) then Num 1 else Num 0)"
  by (cases "rotation (heap w p)") (simp_all add: roundedAverage_def averageRotation_def)

text \<open>
  A board of one cell, which holds a background part, and a gear at rotation \<open>3/10\<close> that is
  not on the board.
\<close>

definition lonelyGear :: Sim where
  "lonelyGear = \<lparr> heap = (\<lambda>r. if r = 0 then newPart PARTLOC
                                   else (newPart GEAR)\<lparr> rotation := Num (3/10) \<rparr>),
      nextPart = 2, subjects = [], grid = [[0]], columnCount = 1, rowCount = 1, balls = [],
      boardChangeCounter = 0 \<rparr>"

text \<open>
  Claim C4 says that the rotation of the new part is left unchanged unless the part
  joins a connected set with more than one member. \<^verbatim>\<open>_connectGears\<close> gives every gear of the
  grid a \<^verbatim>\<open>connected\<close> set that contains the gear itself, so the test \<^verbatim>\<open>newPart.connected\<close> of
  \<^verbatim>\<open>setPart\<close> always succeeds and the rounding runs on a set of one member too: the gear of
  \<open>lonelyGear\<close>, placed in the one cell, has the connected set of itself alone, and its
  rotation \<open>3/10\<close> becomes \<open>0\<close>.
\<close>

theorem C4_counterexample:
  "isGearBase (ptype (heap lonelyGear 1)) \<and> rotation (heap lonelyGear 1) = Num (3/10)
   \<and> (\<exists>w'. Board_setPart 1 0 0 lonelyGear = Some (Inr w')
         \<and> connected_set (heap w' 1) = Some [1]
         \<and> rotation (heap w' 1) = Num 0)"
proof -
  have h: "gridOK lonelyGear" "distinct (concat (grid lonelyGear))"
    "1 \<notin> set (concat (grid lonelyGear))" "(0::int) < int (columnCount lonelyGear)"
    "(0::int) < int (rowCount lonelyGear)" "isGearBase (ptype (heap lonelyGear 1))"
    by (simp_all add: lonelyGear_def gridOK_def newPart_def)
  from setPart_gear_spec [OF h(1,2,3) _ h(4) _ h(5) h(6)]
  obtain w' S where run: "Board_setPart 1 0 0 lonelyGear = Some (Inr w')"
    and cs: "connected_set (heap w' 1) = Some S" and d: "distinct S" and m: "1 \<in> set S"
    and s: "set S = {q \<in> gearCells (placed lonelyGear 1 0 0).
          (1, q) \<in> (gearAdjacent (placed lonelyGear 1 0 0))\<^sup>*}"
    and rot: "\<forall>q \<in> set S. rotation (heap w' q) = roundedAverage lonelyGear S"
    by auto
  have "gearCells (placed lonelyGear 1 0 0) \<subseteq> {1}"
    by (auto simp: gearCells_def placed_def lonelyGear_def)
  then have "set S = {1}" using s m by blast
  then have S: "S = [1]" using d by (rule distinct_singleton [rotated])
  have "rotation (heap w' 1) = Num 0"
    using rot S by (simp add: roundedAverage_single) (simp add: lonelyGear_def newPart_def)
  moreover have "rotation (heap lonelyGear 1) = Num (3/10)"
    by (simp add: lonelyGear_def newPart_def)
  ultimately show ?thesis using run cs S h(6) by simp
qed

text \<open>
  Claim C4, as the code has it. Let the grid have \<^verbatim>\<open>_rowCount\<close> rows of \<^verbatim>\<open>_columnCount\<close> parts,
  no part in two cells, and let \<^verbatim>\<open>setPart\<close> be given a gear or gearbit \<open>p\<close> that is not in the
  grid, for a cell inside the bounds. Then \<^verbatim>\<open>setPart\<close> returns; the \<^verbatim>\<open>connected\<close> set \<open>S\<close> of \<open>p\<close>
  is not null, contains \<open>p\<close> and consists of the gear-class parts that a path of
  edge-adjacent gear-class cells joins to \<open>p\<close> on the new grid; and the rotation of \<open>p\<close>, and
  of every member of \<open>S\<close>, is \<open>1\<close> if the average of the rotations that the members of \<open>S\<close>
  had before the call is at least \<open>1/2\<close> and \<open>0\<close> otherwise, whether or not \<open>S\<close> has another
  member. When \<open>p\<close> is the only member this is the rotation of \<open>p\<close> rounded to \<open>0\<close> or \<open>1\<close>,
  which is the rotation \<open>p\<close> had only if that was \<open>0\<close> or \<open>1\<close>.
\<close>

theorem C4_placed_gear_takes_rounded_average:
  assumes "gridOK w" and "distinct (concat (grid w))"
    and "p \<notin> set (concat (grid w))"
    and "0 \<le> c" and "c < int (columnCount w)" and "0 \<le> r" and "r < int (rowCount w)"
    and "isGearBase (ptype (heap w p))"
  shows "\<exists>w' S. Board_setPart p c r w = Some (Inr w')
           \<and> connected_set (heap w' p) = Some S \<and> p \<in> set S
           \<and> set S = {q \<in> gearCells (placed w p c r). (p, q) \<in> (gearAdjacent (placed w p c r))\<^sup>*}
           \<and> (\<forall>q \<in> set S. rotation (heap w' q) = roundedAverage w S)
           \<and> (S = [p] \<longrightarrow> rotation (heap w' p)
                 = (if num_ge (rotation (heap w p)) (Num (1/2)) then Num 1 else Num 0))"
proof -
  from setPart_gear_spec [OF assms]
  obtain w' S where a: "Board_setPart p c r w = Some (Inr w')"
    "connected_set (heap w' p) = Some S" "p \<in> set S"
    "set S = {q \<in> gearCells (placed w p c r). (p, q) \<in> (gearAdjacent (placed w p c r))\<^sup>*}"
    "\<forall>q \<in> set S. rotation (heap w' q) = roundedAverage w S"
    by blast
  have "S = [p] \<longrightarrow> rotation (heap w' p)
      = (if num_ge (rotation (heap w p)) (Num (1/2)) then Num 1 else Num 0)"
    using a(5) by (auto simp: roundedAverage_single)
  then show ?thesis using a by blast
qed

text \<open>
  A row of two cells with a gearbit at rotation \<open>1\<close> and a background part, and a gear at
  rotation \<open>0\<close> that is placed beside the gearbit.
\<close>

definition gearRow :: Sim where
  "gearRow = \<lparr> heap = (\<lambda>r. if r = 0 then (newPart GEARBIT)\<lparr> rotation := Num 1 \<rparr>
                                else if r = 1 then newPart GEARLOC else newPart GEAR),
      nextPart = 3, subjects = [], grid = [[0, 1]], columnCount = 2, rowCount = 1, balls = [],
      boardChangeCounter = 0 \<rparr>"

theorem C4_witness:
  "gridOK gearRow \<and> distinct (concat (grid gearRow)) \<and> 2 \<notin> set (concat (grid gearRow))
   \<and> (1::int) < int (columnCount gearRow) \<and> (0::int) < int (rowCount gearRow)
   \<and> isGearBase (ptype (heap gearRow 2))
   \<and> (\<exists>w' S. Board_setPart 2 1 0 gearRow = Some (Inr w')
         \<and> connected_set (heap w' 2) = Some S \<and> 2 \<in> set S
         \<and> rotation (heap w' 2) = roundedAverage gearRow S)"
proof -
  have h: "gridOK gearRow" "distinct (concat (grid gearRow))"
    "2 \<notin> set (concat (grid gearRow))" "(1::int) < int (columnCount gearRow)"
    "(0::int) < int (rowCount gearRow)" "isGearBase (ptype (heap gearRow 2))"
    by (simp_all add: gearRow_def gridOK_def newPart_def)
  from C4_placed_gear_takes_rounded_average [OF h(1,2,3) _ h(4) _ h(5) h(6)]
  show ?thesis using h by auto
qed

section \<open>The layout of a run of fences\<close>















subsection \<open>A board of one row that is one run\<close>










end
